theory Spec2Isabelle
  imports Complex_Main
begin

unbundle bit_operations_syntax

chapter \<open>OS resource scheduling simulator: engine and validators\<close>

text \<open>
  The simulator's engine is four pure TypeScript functions (\<open>simulateLOOK\<close>,
  \<open>simulateCSCAN\<close>, \<open>simulateLRU\<close>, \<open>simulateARB\<close>) and two input validators.
  JavaScript numbers are modelled as follows: cylinders, page numbers and reference bits
  are \<open>int\<close>; array indices, counters and the frame count are \<open>nat\<close>; the result of
  \<open>parseInt\<close> is \<open>int option\<close> with \<open>None\<close> for \<open>NaN\<close>; the result of \<open>Number\<close> is a
  \<open>js_number\<close>. Rounding to IEEE doubles (values beyond \<open>2^53\<close>) is not modelled.
\<close>

section \<open>Disk scheduling (client/src/lib/algorithms/disk.ts)\<close>

record DiskResult =
  sequence :: "int list"
  seekDistance :: int
  path :: "(int \<times> nat) list"

text \<open>
  Every \<open>for (const req of xs)\<close> loop of the source has the same body: add
  \<open>Math.abs(req - currentPosition)\<close> to the distance, push the request on \<open>sequence\<close> and
  \<open>path\<close>, and move the head. The loop state is \<open>(result, step, currentPosition)\<close>.
\<close>

fun serve :: "DiskResult \<times> nat \<times> int \<Rightarrow> int list \<Rightarrow> DiskResult \<times> nat \<times> int" where
  "serve st [] = st"
| "serve (result, step, currentPosition) (req # reqs) =
     serve (result\<lparr>seekDistance := seekDistance result + \<bar>req - currentPosition\<bar>,
                   sequence := sequence result @ [req],
                   path := path result @ [(req, step)]\<rparr>,
            step + 1, req) reqs"

text \<open>The wrap jump of C-SCAN: the target is pushed, the distance is left alone.\<close>

fun visit :: "DiskResult \<times> nat \<times> int \<Rightarrow> int \<Rightarrow> DiskResult \<times> nat \<times> int" where
  "visit (result, step, currentPosition) target =
     (result\<lparr>sequence := sequence result @ [target],
             path := path result @ [(target, step)]\<rparr>,
      step + 1, target)"

text \<open>The move to cylinder 0 of the downward C-SCAN: \<open>seekDistance += currentPosition\<close>.\<close>

fun seek_zero :: "DiskResult \<times> nat \<times> int \<Rightarrow> DiskResult \<times> nat \<times> int" where
  "seek_zero (result, step, currentPosition) =
     (result\<lparr>seekDistance := seekDistance result + currentPosition,
             sequence := sequence result @ [0],
             path := path result @ [(0, step)]\<rparr>,
      step + 1, 0)"

text \<open>
  \<open>[...requests].sort((a, b) => a - b)\<close> is the ascending numeric sort. The source's
  \<open>if (atStart.length > 0 && !result.sequence.includes(start))\<close> has an empty body.
\<close>

definition simulateLOOK :: "int \<Rightarrow> int \<Rightarrow> int list \<Rightarrow> bool \<Rightarrow> DiskResult" where
  "simulateLOOK cylinders start requests initialDirection =
     (let result = \<lparr>sequence = [start], seekDistance = 0, path = [(start, 0)]\<rparr>;
          sortedRequests = sort requests;
          higher = filter (\<lambda>r. r > start) sortedRequests;
          lower = filter (\<lambda>r. r < start) sortedRequests;
          atStart = filter (\<lambda>r. r = start) sortedRequests;
          st0 = (result, 1, start)
      in if initialDirection then
           (let st1 = (if length higher > 0 then serve st0 higher else st0);
                st2 = (if length lower > 0 then serve st1 (rev lower) else st1)
            in fst st2)
         else
           (let st1 = (if length lower > 0 then serve st0 (rev lower) else st0);
                st2 = (if length higher > 0 then serve st1 higher else st1)
            in fst st2))"

definition simulateCSCAN :: "int \<Rightarrow> int \<Rightarrow> int list \<Rightarrow> bool \<Rightarrow> DiskResult" where
  "simulateCSCAN cylinders start requests initialDirection =
     (let result = \<lparr>sequence = [start], seekDistance = 0, path = [(start, 0)]\<rparr>;
          sortedRequests = sort requests;
          higher = filter (\<lambda>r. r > start) sortedRequests;
          lower = filter (\<lambda>r. r < start) sortedRequests;
          atStart = filter (\<lambda>r. r = start) sortedRequests;
          st0 = (result, 1, start)
      in if initialDirection then
           (let st1 = serve st0 higher
            in if length lower > 0 then
                 (let st2 = (if snd (snd st1) < cylinders - 1
                             then serve st1 [cylinders - 1] else st1);
                      st3 = visit st2 0
                  in fst (serve st3 lower))
               else fst st1)
         else
           (let st1 = serve st0 (rev lower)
            in if length higher > 0 then
                 (let st2 = (if snd (snd st1) > 0 then seek_zero st1 else st1);
                      st3 = visit st2 (cylinders - 1)
                  in fst (serve st3 (rev higher)))
               else fst st1))"

text \<open>
  The sum of the absolute differences of consecutive cylinders of a path, as the
  specification words the seek distance.
\<close>

fun path_length :: "int list \<Rightarrow> int" where
  "path_length (a # b # xs) = \<bar>b - a\<bar> + path_length (b # xs)"
| "path_length _ = 0"

text \<open>
  A validated disk workload, as \<open>validateDiskInput\<close> hands it to the engine (lemma
  \<open>validateDiskInput_valid\<close> below).
\<close>

definition valid_disk_workload :: "int \<Rightarrow> int \<Rightarrow> int list \<Rightarrow> bool" where
  "valid_disk_workload cylinders start requests \<longleftrightarrow>
     0 < cylinders \<and> 0 \<le> start \<and> start < cylinders \<and> requests \<noteq> [] \<and>
     list_all (\<lambda>r. 0 \<le> r \<and> r < cylinders) requests"

section \<open>Input validation (client/src/lib/validators.ts)\<close>

subsection \<open>The JavaScript built-ins the validators call\<close>

text \<open>
  Strings are lists of bytes, so only the ASCII white space of \<open>trim\<close>, \<open>parseInt\<close> and
  the white-space class of regular expressions is modelled (tab, line feed, vertical
  tab, form feed, carriage return, space).
\<close>

definition is_ws :: "char \<Rightarrow> bool" where
  "is_ws c \<longleftrightarrow> c \<in> {CHR 0x09, CHR 0x0A, CHR 0x0B, CHR 0x0C, CHR 0x0D, CHR '' ''}"

definition trimStart :: "string \<Rightarrow> string" where
  "trimStart s = dropWhile is_ws s"

definition trim :: "string \<Rightarrow> string" where
  "trim s = rev (dropWhile is_ws (rev (dropWhile is_ws s)))"

definition digit_val :: "char \<Rightarrow> nat option" where
  "digit_val c =
     (let n = (of_char c :: nat)
      in if 48 \<le> n \<and> n \<le> 57 then Some (n - 48)
         else if 97 \<le> n \<and> n \<le> 122 then Some (n - 87)
         else if 65 \<le> n \<and> n \<le> 90 then Some (n - 55)
         else None)"

definition is_digit :: "nat \<Rightarrow> char \<Rightarrow> bool" where
  "is_digit radix c = (case digit_val c of Some d \<Rightarrow> d < radix | None \<Rightarrow> False)"

definition digits_value :: "nat \<Rightarrow> string \<Rightarrow> nat" where
  "digits_value radix ds =
     foldl (\<lambda>acc c. acc * radix + (case digit_val c of Some d \<Rightarrow> d | None \<Rightarrow> 0)) 0 ds"

text \<open>
  \<open>parseInt(s)\<close> with no radix: skip leading white space, read a sign, read \<open>0x\<close> or
  \<open>0X\<close> as the hexadecimal prefix, and convert the longest run of digits; \<open>NaN\<close>
  (\<open>None\<close>) when that run is empty. Whatever follows the digits is ignored.
\<close>

definition js_parseInt :: "string \<Rightarrow> int option" where
  "js_parseInt s =
     (let s1 = trimStart s;
          (sign, s2) = (case s1 of
                          c # r \<Rightarrow> if c = CHR ''-'' then (-1, r)
                                   else if c = CHR ''+'' then (1, r) else (1, s1)
                        | [] \<Rightarrow> (1 :: int, s1));
          (radix, s3) = (case s2 of
                           z # x # r \<Rightarrow> if z = CHR ''0'' \<and> (x = CHR ''x'' \<or> x = CHR ''X'')
                                       then (16, r) else (10, s2)
                         | _ \<Rightarrow> (10 :: nat, s2));
          z = takeWhile (is_digit radix) s3
      in if z = [] then None else Some (sign * int (digits_value radix z)))"

text \<open>
  \<open>Number(s)\<close> on a string: the whole trimmed string must be a numeric literal. The
  empty string is 0; \<open>0x\<close>, \<open>0o\<close> and \<open>0b\<close> introduce unsigned integers; otherwise an
  optional sign is followed by \<open>Infinity\<close> or by a decimal literal with an optional
  fraction and exponent. The value is kept exact.
\<close>

datatype js_number = NaN | Finite rat | PosInfinity | NegInfinity

definition isNaN :: "js_number \<Rightarrow> bool" where
  "isNaN n \<longleftrightarrow> n = NaN"

text \<open>The comparison \<open>num < 0\<close>.\<close>

fun js_negative :: "js_number \<Rightarrow> bool" where
  "js_negative NaN = False"
| "js_negative (Finite q) = (q < 0)"
| "js_negative PosInfinity = False"
| "js_negative NegInfinity = True"

definition all_digits :: "nat \<Rightarrow> string \<Rightarrow> bool" where
  "all_digits radix ds \<longleftrightarrow> ds \<noteq> [] \<and> list_all (is_digit radix) ds"

definition parse_exponent :: "string \<Rightarrow> int option" where
  "parse_exponent s =
     (case s of
        [] \<Rightarrow> Some 0
      | e # t \<Rightarrow>
          if e = CHR ''e'' \<or> e = CHR ''E'' then
            (let (neg, ds) = (case t of
                                c # u \<Rightarrow> if c = CHR ''-'' then (True, u)
                                         else if c = CHR ''+'' then (False, u) else (False, t)
                              | [] \<Rightarrow> (False, t))
             in if all_digits 10 ds
                then Some (if neg then - int (digits_value 10 ds) else int (digits_value 10 ds))
                else None)
          else None)"

definition parse_unsigned_decimal :: "string \<Rightarrow> rat option" where
  "parse_unsigned_decimal s =
     (let ip = takeWhile (is_digit 10) s;
          r1 = dropWhile (is_digit 10) s;
          (fp, r2) = (case r1 of
                        d # t \<Rightarrow> if d = CHR ''.''
                                 then (takeWhile (is_digit 10) t, dropWhile (is_digit 10) t)
                                 else ([], r1)
                      | [] \<Rightarrow> ([], r1))
      in if ip = [] \<and> fp = [] then None
         else (case parse_exponent r2 of
                 None \<Rightarrow> None
               | Some ex \<Rightarrow>
                   (let mant = of_nat (digits_value 10 (ip @ fp)) / 10 ^ length fp
                    in Some (if ex < 0 then mant / 10 ^ nat (- ex) else mant * 10 ^ nat ex))))"

definition parse_prefixed :: "string \<Rightarrow> js_number option" where
  "parse_prefixed s =
     (case s of
        z # x # r \<Rightarrow>
          if z \<noteq> CHR ''0'' then None
          else if x = CHR ''x'' \<or> x = CHR ''X'' then
            Some (if all_digits 16 r then Finite (of_nat (digits_value 16 r)) else NaN)
          else if x = CHR ''o'' \<or> x = CHR ''O'' then
            Some (if all_digits 8 r then Finite (of_nat (digits_value 8 r)) else NaN)
          else if x = CHR ''b'' \<or> x = CHR ''B'' then
            Some (if all_digits 2 r then Finite (of_nat (digits_value 2 r)) else NaN)
          else None
      | _ \<Rightarrow> None)"

definition js_Number :: "string \<Rightarrow> js_number" where
  "js_Number s =
     (let t = trim s
      in if t = [] then Finite 0
         else (case parse_prefixed t of
                 Some n \<Rightarrow> n
               | None \<Rightarrow>
                   (let (neg, u) = (case t of
                                      c # r \<Rightarrow> if c = CHR ''-'' then (True, r)
                                               else if c = CHR ''+'' then (False, r) else (False, t)
                                    | [] \<Rightarrow> (False, t))
                    in if u = ''Infinity'' then (if neg then NegInfinity else PosInfinity)
                       else (case parse_unsigned_decimal u of
                               None \<Rightarrow> NaN
                             | Some q \<Rightarrow> Finite (if neg then - q else q)))))"

text \<open>
  Splitting on the regular expression for runs of white space: the pieces between the
  maximal runs.
\<close>

function split_ws :: "string \<Rightarrow> string list" where
  "split_ws [] = ['''']"
| "split_ws (c # cs) =
     (if is_ws c then [] # split_ws (dropWhile is_ws cs)
      else (case split_ws cs of t # ts \<Rightarrow> (c # t) # ts | [] \<Rightarrow> [[c] ]))"
  by pat_completeness auto
termination
  by (relation "measure length") (auto simp: length_dropWhile_le less_Suc_eq_le)

text \<open>\<open>s.split(',')\<close>: the pieces between the separators.\<close>

fun split_on :: "char \<Rightarrow> string \<Rightarrow> string list" where
  "split_on sep [] = ['''']"
| "split_on sep (c # cs) =
     (if c = sep then [] # split_on sep cs
      else (case split_on sep cs of t # ts \<Rightarrow> (c # t) # ts | [] \<Rightarrow> [[c] ]))"

text \<open>The decimal text a template literal gives an integer.\<close>

fun show_nat :: "nat \<Rightarrow> string" where
  "show_nat n = (if n < 10 then [char_of (48 + n)]
                 else show_nat (n div 10) @ [char_of (48 + n mod 10)])"

definition show_int :: "int \<Rightarrow> string" where
  "show_int i = (if i < 0 then CHR ''-'' # show_nat (nat (- i)) else show_nat (nat i))"

subsection \<open>The validators\<close>

text \<open>
  The returned object \<open>{valid, message, ...}\<close> is a value of a two-constructor type:
  the rejection with its message, or the parsed workload (whose message is empty).
  \<open>!frameCount\<close> holds for \<open>NaN\<close> and for 0.
\<close>

datatype memory_validation = MemInvalid string | MemValid int "js_number list"

definition validateMemoryInput :: "string \<Rightarrow> string \<Rightarrow> memory_validation" where
  "validateMemoryInput frames referenceString =
     (case js_parseInt frames of
        None \<Rightarrow> MemInvalid ''Number of frames must be a positive integer''
      | Some frameCount \<Rightarrow>
          if frameCount = 0 \<or> frameCount \<le> 0
          then MemInvalid ''Number of frames must be a positive integer''
          else
            (let refStringValue = trim referenceString
             in if refStringValue = [] then MemInvalid ''Reference string is required''
                else
                  (let refArray = map js_Number (split_ws refStringValue)
                   in if list_ex isNaN refArray
                      then MemInvalid
                        ''Reference string must contain only numbers separated by spaces''
                      else if list_ex js_negative refArray
                      then MemInvalid ''Reference string must contain non-negative integers''
                      else MemValid frameCount refArray)))"

text \<open>
  \<open>those\<close> fails exactly when some token parses to \<open>NaN\<close>, which is the test
  \<open>requestArray.some(isNaN)\<close>.
\<close>

datatype disk_validation = DiskInvalid string | DiskValid int int "int list"

definition validateDiskInput :: "string \<Rightarrow> string \<Rightarrow> string \<Rightarrow> disk_validation" where
  "validateDiskInput cylinders headPosition requestQueue =
     (case js_parseInt cylinders of
        None \<Rightarrow> DiskInvalid ''Total cylinders must be a positive integer''
      | Some cylindersCount \<Rightarrow>
          if cylindersCount = 0 \<or> cylindersCount \<le> 0
          then DiskInvalid ''Total cylinders must be a positive integer''
          else
            (case js_parseInt headPosition of
               None \<Rightarrow> DiskInvalid ''Head position must be a non-negative integer''
             | Some start \<Rightarrow>
                 if start < 0 then DiskInvalid ''Head position must be a non-negative integer''
                 else if start \<ge> cylindersCount
                 then DiskInvalid (''Head position must be less than total cylinders (0-''
                                   @ show_int (cylindersCount - 1) @ '')'')
                 else
                   (let requestsValue = trim requestQueue
                    in if requestsValue = [] then DiskInvalid ''Request queue is required''
                       else
                         (case those (map (\<lambda>r. js_parseInt (trim r))
                                          (split_on CHR '','' requestsValue)) of
                            None \<Rightarrow> DiskInvalid
                              ''Request queue must contain only numbers separated by commas''
                          | Some requestArray \<Rightarrow>
                              if list_ex (\<lambda>num. num < 0 \<or> num \<ge> cylindersCount) requestArray
                              then DiskInvalid (''Request queue must contain integers between 0 and ''
                                                @ show_int (cylindersCount - 1))
                              else DiskValid cylindersCount start requestArray))))"

text \<open>A non-negative integer, as the specification asks of every reference token.\<close>

fun nonneg_integer :: "js_number \<Rightarrow> bool" where
  "nonneg_integer (Finite q) = (0 \<le> q \<and> of_int \<lfloor>q\<rfloor> = q)"
| "nonneg_integer _ = False"

section \<open>Page replacement (lib/algorithms/memory.ts)\<close>

text \<open>
  The source text holds this module twice. Both copies have the same interfaces and the
  same \<open>simulateLRU\<close>; the first has the aging \<open>simulateARB\<close>, the second the clock
  \<open>simulateARB\<close>, which is the one the specification describes and the one called
  \<open>simulateARB\<close> below. Optional fields of the TypeScript interface are \<open>option\<close>
  values; \<open>None\<close> is \<open>undefined\<close>.
\<close>

record MemoryStep =
  reference :: int
  frames :: "int list"
  framesAfter :: "int list"
  isFault :: bool
  refBits :: "int list option"
  refBitsAfter :: "int list option"
  replacedFrame :: "nat option"
  resetBits :: "bool option"
  pointerPosition :: "nat option"
  pointerPositionAfter :: "nat option"
  orderOfUse :: "nat list option"

record MemoryResult =
  steps :: "MemoryStep list"
  faults :: nat
  hits :: nat

text \<open>\<open>Array.prototype.indexOf\<close>: the first index holding the value, \<open>None\<close> for \<open>-1\<close>.\<close>

fun indexOf :: "'a list \<Rightarrow> 'a \<Rightarrow> nat option" where
  "indexOf [] x = None"
| "indexOf (y # ys) x = (if y = x then Some 0 else map_option Suc (indexOf ys x))"

text \<open>\<open>xs.splice(pos, 1)\<close>: remove the element at \<open>pos\<close>.\<close>

definition splice1 :: "nat \<Rightarrow> 'a list \<Rightarrow> 'a list" where
  "splice1 pos xs = take pos xs @ drop (Suc pos) xs"

text \<open>
  The \<open>for\<close> loop over the reference string, threading the mutable state through a
  body that may have no result.
\<close>

fun for_each :: "('s \<Rightarrow> 'a \<Rightarrow> 's option) \<Rightarrow> 's \<Rightarrow> 'a list \<Rightarrow> 's option" where
  "for_each body st [] = Some st"
| "for_each body st (x # xs) =
     (case body st x of None \<Rightarrow> None | Some st' \<Rightarrow> for_each body st' xs)"

subsection \<open>LRU\<close>

text \<open>
  The loop state is \<open>(frames, orderOfUse, result)\<close>; the local \<open>frames\<close> is written
  \<open>frs\<close> because \<open>frames\<close> names the step's field. The snapshot \<open>orderOfUse\<close> taken when
  the step is created is overwritten at the end of the iteration, so an emitted step
  carries the order after the access.

  \<open>None\<close> stands for the places where the JavaScript would index with \<open>undefined\<close>
  (\<open>orderOfUse[0]\<close> of an empty list) or write outside the frame table; the theorems
  below show that neither is reached when \<open>frameCount \<ge> 1\<close>.
\<close>

type_synonym lru_state = "int list \<times> nat list \<times> MemoryResult"

fun lru_body :: "lru_state \<Rightarrow> int \<Rightarrow> lru_state option" where
  "lru_body (frs, order, result) page =
     (let step = \<lparr>reference = page, frames = frs, framesAfter = [], isFault = False,
                  refBits = None, refBitsAfter = None, replacedFrame = None,
                  resetBits = None, pointerPosition = None, pointerPositionAfter = None,
                  orderOfUse = Some order\<rparr>
      in case indexOf frs page of
           Some frameIndex \<Rightarrow>
             (let result1 = result\<lparr>hits := hits result + 1\<rparr>;
                  order1 = (case indexOf order frameIndex of
                              Some posIndex \<Rightarrow> splice1 posIndex order
                            | None \<Rightarrow> order) @ [frameIndex];
                  step1 = step\<lparr>framesAfter := frs, orderOfUse := Some order1\<rparr>
              in Some (frs, order1, result1\<lparr>steps := steps result1 @ [step1]\<rparr>))
         | None \<Rightarrow>
             (let result1 = result\<lparr>faults := faults result + 1\<rparr>;
                  step1 = step\<lparr>isFault := True\<rparr>
              in if -1 \<in> set frs then
                   (case indexOf frs (-1) of
                      None \<Rightarrow> None
                    | Some emptyIndex \<Rightarrow>
                        (let frs1 = frs[emptyIndex := page];
                             step2 = step1\<lparr>replacedFrame := Some emptyIndex\<rparr>;
                             order1 = order @ [emptyIndex];
                             step3 = step2\<lparr>framesAfter := frs1, orderOfUse := Some order1\<rparr>
                         in Some (frs1, order1, result1\<lparr>steps := steps result1 @ [step3]\<rparr>)))
                 else
                   (case order of
                      [] \<Rightarrow> None
                    | replaceFrameIndex # rest \<Rightarrow>
                        if replaceFrameIndex < length frs then
                          (let step2 = step1\<lparr>replacedFrame := Some replaceFrameIndex\<rparr>;
                               frs1 = frs[replaceFrameIndex := page];
                               order1 = rest @ [replaceFrameIndex];
                               step3 = step2\<lparr>framesAfter := frs1, orderOfUse := Some order1\<rparr>
                           in Some (frs1, order1, result1\<lparr>steps := steps result1 @ [step3]\<rparr>))
                        else None)))"

definition simulateLRU :: "nat \<Rightarrow> int list \<Rightarrow> MemoryResult option" where
  "simulateLRU frameCount refString =
     map_option (\<lambda>(frs, order, result). result)
       (for_each lru_body (replicate frameCount (-1), [], \<lparr>steps = [], faults = 0, hits = 0\<rparr>)
          refString)"

subsection \<open>ARB, clock variant\<close>

text \<open>
  The victim search \<open>while (!foundVictim)\<close>. Its state is the frame table, the reference
  bits, the clock hand, \<open>loopCount\<close>, and the step's \<open>replacedFrame\<close> and \<open>resetBits\<close>;
  \<open>probes\<close> counts the iterations and is not in the source. The loop is defined as a
  partial function: \<open>None\<close> is a search that does not return, and also a hand outside
  the bit array, where the JavaScript would read \<open>undefined\<close> and grow the array.
  The final \<open>loopCount\<close> exceeds 1 exactly when the forced-eviction branch has run.
\<close>

type_synonym sweep_state =
  "int list \<times> int list \<times> nat \<times> nat \<times> nat option \<times> bool \<times> nat"

partial_function (option) sweep ::
  "nat \<Rightarrow> int \<Rightarrow> nat \<Rightarrow> int list \<Rightarrow> int list \<Rightarrow> nat \<Rightarrow> nat \<Rightarrow> nat option \<Rightarrow> bool \<Rightarrow> nat
     \<Rightarrow> sweep_state option" where
  "sweep frameCount page startPointer frs bits pointer loopCount replaced reset probes =
     (if length bits \<le> pointer \<or> length frs \<le> pointer then None
      else if bits ! pointer = 0 then
        Some (frs[pointer := page], bits[pointer := 1], (pointer + 1) mod frameCount,
              loopCount, Some pointer, reset, probes + 1)
      else
        (let bits1 = bits[pointer := 0];
             pointer1 = (pointer + 1) mod frameCount
         in if pointer1 = startPointer then
              (let loopCount1 = loopCount + 1;
                   reset1 = (if loopCount1 = 1 then True else reset)
               in if loopCount1 > 1 then
                    Some (frs[pointer1 := page], bits1[pointer1 := 1],
                          (pointer1 + 1) mod frameCount,
                          loopCount1, Some pointer1, reset1, probes + 1)
                  else sweep frameCount page startPointer
                         frs bits1 pointer1 loopCount1 replaced reset1 (probes + 1))
            else sweep frameCount page startPointer
                   frs bits1 pointer1 loopCount replaced reset (probes + 1)))"

declare sweep.simps [code]

text \<open>
  The loop state is \<open>(frames, refBits, pointer, framesFilled, result, sweeps)\<close>. The last
  component is a log kept for the proofs only: one pair (final \<open>loopCount\<close>, number of
  probes) for each victim search that was run.
\<close>

type_synonym arb_state =
  "int list \<times> int list \<times> nat \<times> nat \<times> MemoryResult \<times> (nat \<times> nat) list"

fun arb_body :: "nat \<Rightarrow> arb_state \<Rightarrow> int \<Rightarrow> arb_state option" where
  "arb_body frameCount (frs, bits, pointer, framesFilled, result, sweeps) page =
     (let step = \<lparr>reference = page, frames = frs, framesAfter = [], isFault = False,
                  refBits = Some bits, refBitsAfter = Some [], replacedFrame = None,
                  resetBits = Some False, pointerPosition = Some pointer,
                  pointerPositionAfter = Some pointer, orderOfUse = None\<rparr>
      in case indexOf frs page of
           Some frameIndex \<Rightarrow>
             (let result1 = result\<lparr>hits := hits result + 1\<rparr>;
                  bits1 = bits[frameIndex := 1];
                  step1 = step\<lparr>framesAfter := frs, refBitsAfter := Some bits1\<rparr>
              in Some (frs, bits1, pointer, framesFilled,
                       result1\<lparr>steps := steps result1 @ [step1]\<rparr>, sweeps))
         | None \<Rightarrow>
             (let result1 = result\<lparr>faults := faults result + 1\<rparr>;
                  step1 = step\<lparr>isFault := True\<rparr>
              in if framesFilled < frameCount then
                   (case indexOf frs (-1) of
                      None \<Rightarrow> None
                    | Some emptyIndex \<Rightarrow>
                        (let frs1 = frs[emptyIndex := page];
                             bits1 = bits[emptyIndex := 1];
                             pointer1 = (emptyIndex + 1) mod frameCount;
                             step2 = step1\<lparr>replacedFrame := Some emptyIndex,
                                           pointerPositionAfter := Some pointer1\<rparr>;
                             step3 = step2\<lparr>framesAfter := frs1, refBitsAfter := Some bits1\<rparr>
                         in Some (frs1, bits1, pointer1, framesFilled + 1,
                                  result1\<lparr>steps := steps result1 @ [step3]\<rparr>, sweeps)))
                 else
                   (case sweep frameCount page pointer frs bits pointer 0 None False 0 of
                      None \<Rightarrow> None
                    | Some (frs1, bits1, pointer1, loopCount, replaced, reset, probes) \<Rightarrow>
                        (let step2 = step1\<lparr>replacedFrame := replaced, resetBits := Some reset,
                                           pointerPositionAfter := Some pointer1\<rparr>;
                             step3 = step2\<lparr>framesAfter := frs1, refBitsAfter := Some bits1\<rparr>
                         in Some (frs1, bits1, pointer1, framesFilled,
                                  result1\<lparr>steps := steps result1 @ [step3]\<rparr>,
                                  sweeps @ [(loopCount, probes)])))))"

definition arb_run :: "nat \<Rightarrow> int list \<Rightarrow> arb_state option" where
  "arb_run frameCount refString =
     for_each (arb_body frameCount)
       (replicate frameCount (-1), replicate frameCount 0, 0, 0,
        \<lparr>steps = [], faults = 0, hits = 0\<rparr>, [])
       refString"

definition simulateARB :: "nat \<Rightarrow> int list \<Rightarrow> MemoryResult option" where
  "simulateARB frameCount refString =
     map_option (\<lambda>(frs, bits, pointer, framesFilled, result, sweeps). result)
       (arb_run frameCount refString)"

subsection \<open>ARB, aging variant\<close>

text \<open>
  The source holds a second \<open>simulateARB\<close>, which keeps an 8-bit history per frame and
  shifts it on every reference but the first. Histories stay within \<open>0..255\<close>, where the
  32-bit \<open>>>\<close> of JavaScript is \<open>drop_bit\<close>. The loop runs over the index and the page.
\<close>

type_synonym aging_state =
  "int list \<times> int list \<times> int list \<times> nat \<times> nat \<times> MemoryResult"

definition shift_history :: "int list \<Rightarrow> int list \<times> int list \<Rightarrow> nat \<Rightarrow> int list \<times> int list" where
  "shift_history frs hb j =
     (case hb of (hist, bits) \<Rightarrow>
        if frs ! j \<noteq> -1 then
          (let hist1 = hist[j := drop_bit 1 (hist ! j)];
               bits1 = bits[j := (if (hist1 ! j AND 0x80) > 0 then 1 else 0)]
           in (hist1, bits1))
        else (hist, bits))"

definition lowest_history :: "int list \<Rightarrow> int \<times> nat \<Rightarrow> nat \<Rightarrow> int \<times> nat" where
  "lowest_history hist mv j =
     (case mv of (minValue, victimIndex) \<Rightarrow>
        if hist ! j < minValue then (hist ! j, j) else (minValue, victimIndex))"

fun aging_body :: "nat \<Rightarrow> aging_state \<Rightarrow> nat \<times> int \<Rightarrow> aging_state option" where
  "aging_body frameCount (frs, hist, bits, framesFilled, pointer, result) (i, page) =
     (let shouldShiftBits = (i > 0);
          step = \<lparr>reference = page, frames = frs, framesAfter = [], isFault = False,
                  refBits = Some bits, refBitsAfter = Some [], replacedFrame = None,
                  resetBits = Some shouldShiftBits, pointerPosition = Some pointer,
                  pointerPositionAfter = Some pointer, orderOfUse = None\<rparr>;
          (hist0, bits0) = (if shouldShiftBits
                            then foldl (shift_history frs) (hist, bits) [0..<frameCount]
                            else (hist, bits))
      in case indexOf frs page of
           Some frameIndex \<Rightarrow>
             (let result1 = result\<lparr>hits := hits result + 1\<rparr>;
                  hist1 = hist0[frameIndex := (hist0 ! frameIndex) OR 0x80];
                  bits1 = bits0[frameIndex := 1];
                  step1 = step\<lparr>framesAfter := frs, refBitsAfter := Some bits1\<rparr>
              in Some (frs, hist1, bits1, framesFilled, pointer,
                       result1\<lparr>steps := steps result1 @ [step1]\<rparr>))
         | None \<Rightarrow>
             (let result1 = result\<lparr>faults := faults result + 1\<rparr>;
                  step1 = step\<lparr>isFault := True\<rparr>
              in if framesFilled < frameCount then
                   (case indexOf frs (-1) of
                      None \<Rightarrow> None
                    | Some emptyIndex \<Rightarrow>
                        (let frs1 = frs[emptyIndex := page];
                             hist1 = hist0[emptyIndex := 0x80];
                             bits1 = bits0[emptyIndex := 1];
                             pointer1 = (emptyIndex + 1) mod frameCount;
                             step2 = step1\<lparr>replacedFrame := Some emptyIndex,
                                           pointerPositionAfter := Some pointer1\<rparr>;
                             step3 = step2\<lparr>framesAfter := frs1, refBitsAfter := Some bits1\<rparr>
                         in Some (frs1, hist1, bits1, framesFilled + 1, pointer1,
                                  result1\<lparr>steps := steps result1 @ [step3]\<rparr>)))
                 else
                   (let (minValue, victimIndex) =
                          foldl (lowest_history hist0) (9007199254740991, 0) [0..<frameCount];
                        frs1 = frs[victimIndex := page];
                        hist1 = hist0[victimIndex := 0x80];
                        bits1 = bits0[victimIndex := 1];
                        pointer1 = (victimIndex + 1) mod frameCount;
                        step2 = step1\<lparr>replacedFrame := Some victimIndex,
                                      pointerPositionAfter := Some pointer1\<rparr>;
                        step3 = step2\<lparr>framesAfter := frs1, refBitsAfter := Some bits1\<rparr>
                    in Some (frs1, hist1, bits1, framesFilled, pointer1,
                             result1\<lparr>steps := steps result1 @ [step3]\<rparr>))))"

definition simulateARB_aging :: "nat \<Rightarrow> int list \<Rightarrow> MemoryResult option" where
  "simulateARB_aging frameCount refString =
     map_option (\<lambda>(frs, hist, bits, framesFilled, pointer, result). result)
       (for_each (aging_body frameCount)
          (replicate frameCount (-1), replicate frameCount 0, replicate frameCount 0, 0, 0,
           \<lparr>steps = [], faults = 0, hits = 0\<rparr>)
          (zip [0..<length refString] refString))"

subsection \<open>Properties of traces\<close>

text \<open>The fault flag and the reset flag of every step of a run.\<close>

definition fault_and_reset_flags :: "MemoryResult \<Rightarrow> (bool \<times> bool option) list" where
  "fault_and_reset_flags result = map (\<lambda>s. (isFault s, resetBits s)) (steps result)"

text \<open>
  A trace evicts at the front of the usage order: on every fault that finds no empty
  frame, the replaced frame is the head of the order list left by the previous step.
\<close>

fun evicts_lru_front :: "nat list \<Rightarrow> MemoryStep list \<Rightarrow> bool" where
  "evicts_lru_front order [] = True"
| "evicts_lru_front order (s # ss) =
     ((isFault s \<and> -1 \<notin> set (frames s) \<longrightarrow>
         order \<noteq> [] \<and> replacedFrame s = Some (hd order)
         \<and> framesAfter s = (frames s)[hd order := reference s])
      \<and> evicts_lru_front (case orderOfUse s of Some order' \<Rightarrow> order' | None \<Rightarrow> []) ss)"

text \<open>What every LRU step satisfies, and the invariant of the LRU loop.\<close>

definition lru_step_ok :: "MemoryStep \<Rightarrow> bool" where
  "lru_step_ok s \<longleftrightarrow>
     (if isFault s
      then (\<exists>v. replacedFrame s = Some v \<and> v < length (frames s)
                \<and> framesAfter s = (frames s)[v := reference s]
                \<and> reference s \<notin> set (frames s))
      else framesAfter s = frames s)"

definition lru_inv :: "nat \<Rightarrow> lru_state \<Rightarrow> bool" where
  "lru_inv k st =
     (case st of (frs, order, result) \<Rightarrow>
        length frs = k \<and> (\<forall>i\<in>set order. i < k) \<and> (order = [] \<longrightarrow> set frs \<subseteq> {-1})
        \<and> faults result + hits result = length (steps result)
        \<and> (\<forall>s\<in>set (steps result). lru_step_ok s))"

definition lru_steps :: "lru_state \<Rightarrow> nat" where
  "lru_steps st = (case st of (frs, order, result) \<Rightarrow> length (steps result))"

text \<open>
  What every step of the clock variant satisfies on non-negative pages, and the two
  invariants of its loop: the first holds for every reference string, the second needs
  pages other than the sentinel \<open>-1\<close>.
\<close>

definition arb_step_ok :: "nat \<Rightarrow> MemoryStep \<Rightarrow> bool" where
  "arb_step_ok k s \<longleftrightarrow>
     length (frames s) = k \<and>
     (\<exists>bits bits'. refBits s = Some bits \<and> refBitsAfter s = Some bits'
        \<and> length bits = k \<and> length bits' = k
        \<and> (if isFault s
            then (\<exists>v. replacedFrame s = Some v \<and> v < k
                      \<and> framesAfter s = (frames s)[v := reference s]
                      \<and> reference s \<notin> set (frames s)
                      \<and> bits' ! v = 1
                      \<and> (resetBits s = Some True \<longleftrightarrow>
                           -1 \<notin> set (frames s) \<and> (\<forall>b\<in>set bits. b = 1)))
            else (\<exists>i. indexOf (frames s) (reference s) = Some i
                      \<and> framesAfter s = frames s \<and> bits' ! i = 1
                      \<and> resetBits s = Some False)))"

definition arb_inv :: "nat \<Rightarrow> arb_state \<Rightarrow> bool" where
  "arb_inv k st =
     (case st of (frs, bits, pointer, framesFilled, result, sweeps) \<Rightarrow>
        length frs = k \<and> length bits = k \<and> pointer < k \<and> framesFilled \<le> k
        \<and> (framesFilled < k \<longrightarrow> count_list frs (-1) + framesFilled = k)
        \<and> faults result + hits result = length (steps result)
        \<and> (\<forall>(loopCount, probes)\<in>set sweeps. loopCount \<le> 1 \<and> probes \<le> k + 1))"

definition arb_inv2 :: "nat \<Rightarrow> arb_state \<Rightarrow> bool" where
  "arb_inv2 k st =
     (case st of (frs, bits, pointer, framesFilled, result, sweeps) \<Rightarrow>
        count_list frs (-1) + framesFilled = k \<and> set bits \<subseteq> {0, 1}
        \<and> (\<forall>s\<in>set (steps result). arb_step_ok k s))"

definition arb_steps :: "arb_state \<Rightarrow> nat" where
  "arb_steps st =
     (case st of (frs, bits, pointer, framesFilled, result, sweeps) \<Rightarrow> length (steps result))"

text \<open>What every step of the aging variant satisfies, and the invariant of its loop.\<close>

definition aging_step_ok :: "nat \<Rightarrow> MemoryStep \<Rightarrow> bool" where
  "aging_step_ok k s \<longleftrightarrow>
     (\<exists>bits'. refBitsAfter s = Some bits' \<and> length bits' = k
        \<and> (if isFault s
            then (\<exists>v. replacedFrame s = Some v \<and> v < k
                      \<and> framesAfter s ! v = reference s \<and> bits' ! v = 1)
            else (\<exists>i. indexOf (frames s) (reference s) = Some i \<and> i < k
                      \<and> framesAfter s ! i = reference s \<and> bits' ! i = 1)))"

definition aging_inv :: "nat \<Rightarrow> nat \<Rightarrow> aging_state \<Rightarrow> bool" where
  "aging_inv k i st =
     (case st of (frs, hist, bits, framesFilled, pointer, result) \<Rightarrow>
        length frs = k \<and> length hist = k \<and> length bits = k \<and> framesFilled \<le> k
        \<and> (framesFilled < k \<longrightarrow> count_list frs (-1) + framesFilled = k)
        \<and> length (steps result) = i
        \<and> (\<forall>n<i. aging_step_ok k (steps result ! n)
                  \<and> resetBits (steps result ! n) = Some (0 < n)))"

section \<open>Disk scheduling: proofs\<close>

lemma path_length_last:
  "xs \<noteq> [] \<Longrightarrow> path_length (xs @ ys) = path_length xs + path_length (last xs # ys)"
  by (induction xs rule: path_length.induct) auto

lemma serve_sequence: "sequence (fst (serve st xs)) = sequence (fst st) @ xs"
  by (induction st xs rule: serve.induct) auto

lemma serve_position: "snd (snd (serve st xs)) = last (snd (snd st) # xs)"
  by (induction st xs rule: serve.induct) auto

lemma serve_seekDistance:
  "seekDistance (fst (serve st xs)) = seekDistance (fst st) + path_length (snd (snd st) # xs)"
  by (induction st xs rule: serve.induct) auto

lemma visit_sequence: "sequence (fst (visit st t)) = sequence (fst st) @ [t]"
  by (cases st) simp

lemma visit_seekDistance: "seekDistance (fst (visit st t)) = seekDistance (fst st)"
  by (cases st) simp

lemma visit_position: "snd (snd (visit st t)) = t"
  by (cases st) simp

lemma seek_zero_sequence: "sequence (fst (seek_zero st)) = sequence (fst st) @ [0]"
  by (cases st) simp

lemma seek_zero_seekDistance:
  "seekDistance (fst (seek_zero st)) = seekDistance (fst st) + snd (snd st)"
  by (cases st) simp

lemma seek_zero_position: "snd (snd (seek_zero st)) = 0"
  by (cases st) simp

lemmas disk_simps = serve_sequence serve_position serve_seekDistance
  visit_sequence visit_seekDistance visit_position
  seek_zero_sequence seek_zero_seekDistance seek_zero_position

lemma sort_Nil_iff: "sort xs = [] \<longleftrightarrow> xs = []"
  by (metis length_sort length_0_conv)

text \<open>Filtering the sorted queue is sorting the filtered queue, whatever was dropped before.\<close>

lemma filter_sort_filter:
  assumes "\<And>x. P x \<Longrightarrow> Q x"
  shows "filter P (sort (filter Q xs)) = filter P (sort xs)"
proof -
  have "filter P (filter Q xs) = filter P xs"
    using assms by (induction xs) auto
  then show ?thesis by (simp add: filter_sort)
qed

lemma LOOK_sequence:
  "sequence (simulateLOOK c s rs d) =
     (if d then s # sort (filter (\<lambda>r. s < r) rs) @ rev (sort (filter (\<lambda>r. r < s) rs))
      else s # rev (sort (filter (\<lambda>r. r < s) rs)) @ sort (filter (\<lambda>r. s < r) rs))"
  by (simp add: simulateLOOK_def Let_def serve_sequence filter_sort)

lemma LOOK_seek:
  "seekDistance (simulateLOOK c s rs d) = path_length (sequence (simulateLOOK c s rs d))"
  using path_length_last[of "s # xs" for xs]
  by (simp add: simulateLOOK_def Let_def serve_sequence serve_seekDistance serve_position)

lemma CSCAN_sequence:
  "sequence (simulateCSCAN c s rs d) =
     (let hs = sort (filter (\<lambda>r. s < r) rs); ls = sort (filter (\<lambda>r. r < s) rs)
      in if d then
           s # hs @ (if ls \<noteq> [] then (if last (s # hs) < c - 1 then [c - 1] else []) @ 0 # ls
                     else [])
         else
           s # rev ls @ (if hs \<noteq> [] then (if last (s # rev ls) > 0 then [0] else [])
                                           @ (c - 1) # rev hs
                         else []))"
  by (auto simp: simulateCSCAN_def Let_def disk_simps filter_sort sort_Nil_iff)

lemma CSCAN_up_sequence:
  assumes "valid_disk_workload c s rs" "\<exists>r\<in>set rs. r < s"
  shows "sequence (simulateCSCAN c s rs True) =
     s # sort (filter (\<lambda>r. s < r) rs)
       @ (if last (s # sort (filter (\<lambda>r. s < r) rs)) = c - 1 then [] else [c - 1])
       @ 0 # sort (filter (\<lambda>r. r < s) rs)"
proof -
  let ?hs = "sort (filter (\<lambda>r. s < r) rs)"
  have "last (s # ?hs) \<in> set (s # ?hs)" by (rule last_in_set) simp
  then have "last (s # ?hs) < c"
    using assms(1) by (auto simp: valid_disk_workload_def list_all_iff)
  moreover have "filter (\<lambda>r. r < s) rs \<noteq> []"
    using assms(2) by (auto simp: filter_empty_conv)
  ultimately show ?thesis
    by (auto simp: simulateCSCAN_def Let_def disk_simps filter_sort sort_Nil_iff)
qed

lemma CSCAN_up_seek:
  assumes "valid_disk_workload c s rs" "\<exists>r\<in>set rs. r < s"
  shows "seekDistance (simulateCSCAN c s rs True) =
     path_length (s # sort (filter (\<lambda>r. s < r) rs)
       @ (if last (s # sort (filter (\<lambda>r. s < r) rs)) = c - 1 then [] else [c - 1]))
     + path_length (0 # sort (filter (\<lambda>r. r < s) rs))"
proof -
  let ?hs = "sort (filter (\<lambda>r. s < r) rs)"
  have "last (s # ?hs) \<in> set (s # ?hs)" by (rule last_in_set) simp
  then have "last (s # ?hs) < c"
    using assms(1) by (auto simp: valid_disk_workload_def list_all_iff)
  moreover have "filter (\<lambda>r. r < s) rs \<noteq> []"
    using assms(2) by (auto simp: filter_empty_conv)
  ultimately show ?thesis
    using path_length_last[of "s # ?hs" "[c - 1]"]
    by (auto simp: simulateCSCAN_def Let_def disk_simps filter_sort sort_Nil_iff)
qed

lemma CSCAN_up_wrap:
  assumes "valid_disk_workload c s rs" "\<exists>r\<in>set rs. r < s"
  shows "seekDistance (simulateCSCAN c s rs True) =
     path_length (sequence (simulateCSCAN c s rs True)) - \<bar>0 - (c - 1)\<bar>"
proof -
  let ?hs = "sort (filter (\<lambda>r. s < r) rs)"
  let ?b = "(if last (s # ?hs) = c - 1 then [] else [c - 1])"
  let ?ls = "sort (filter (\<lambda>r. r < s) rs)"
  have l: "last ((s # ?hs) @ ?b) = c - 1"
  proof (cases "last (s # ?hs) = c - 1")
    case True
    then show ?thesis by (simp del: last.simps)
  next
    case False
    then show ?thesis
      using last_snoc[of "s # ?hs" "c - 1"] by (simp del: last.simps)
  qed
  have "path_length (((s # ?hs) @ ?b) @ 0 # ?ls) =
        path_length ((s # ?hs) @ ?b) + path_length (last ((s # ?hs) @ ?b) # 0 # ?ls)"
    by (rule path_length_last) simp
  also have "\<dots> = path_length ((s # ?hs) @ ?b) + \<bar>0 - (c - 1)\<bar> + path_length (0 # ?ls)"
    unfolding l by simp
  finally show ?thesis
    using CSCAN_up_sequence[OF assms] CSCAN_up_seek[OF assms] by simp
qed

lemma LOOK_drop_start:
  "simulateLOOK c s (filter (\<lambda>r. r \<noteq> s) rs) d = simulateLOOK c s rs d"
proof -
  have "filter (\<lambda>r. s < r) (sort (filter (\<lambda>r. r \<noteq> s) rs)) = filter (\<lambda>r. s < r) (sort rs)"
    by (rule filter_sort_filter) simp
  moreover
  have "filter (\<lambda>r. r < s) (sort (filter (\<lambda>r. r \<noteq> s) rs)) = filter (\<lambda>r. r < s) (sort rs)"
    by (rule filter_sort_filter) simp
  ultimately show ?thesis by (simp add: simulateLOOK_def Let_def)
qed

lemma CSCAN_drop_start:
  "simulateCSCAN c s (filter (\<lambda>r. r \<noteq> s) rs) d = simulateCSCAN c s rs d"
proof -
  have "filter (\<lambda>r. s < r) (sort (filter (\<lambda>r. r \<noteq> s) rs)) = filter (\<lambda>r. s < r) (sort rs)"
    by (rule filter_sort_filter) simp
  moreover
  have "filter (\<lambda>r. r < s) (sort (filter (\<lambda>r. r \<noteq> s) rs)) = filter (\<lambda>r. r < s) (sort rs)"
    by (rule filter_sort_filter) simp
  ultimately show ?thesis by (simp add: simulateCSCAN_def Let_def)
qed

lemma count_once:
  "xs \<noteq> [] \<Longrightarrow> hd xs = s \<Longrightarrow> s \<notin> set (tl xs) \<Longrightarrow> xs ! 0 = s \<and> count_list xs s = 1"
  by (cases xs) (simp_all add: count_list_0_iff)

lemma LOOK_start_once:
  "sequence (simulateLOOK c s rs d) ! 0 = s \<and> count_list (sequence (simulateLOOK c s rs d)) s = 1"
  by (rule count_once) (auto simp: LOOK_sequence)

lemma CSCAN_start_once:
  assumes "valid_disk_workload c s rs"
  shows "sequence (simulateCSCAN c s rs d) ! 0 = s
       \<and> count_list (sequence (simulateCSCAN c s rs d)) s = 1"
proof -
  let ?hs = "sort (filter (\<lambda>r. s < r) rs)" and ?ls = "sort (filter (\<lambda>r. r < s) rs)"
  from assms have rng: "0 \<le> s" "s < c" "\<forall>r\<in>set rs. 0 \<le> r \<and> r < c"
    by (auto simp: valid_disk_workload_def list_all_iff)
  have top: "s < c - 1" if "?hs \<noteq> []"
  proof -
    from that obtain r where "r \<in> set ?hs" by (cases ?hs) auto
    then have "s < r" "r < c" using rng by auto
    then show ?thesis by simp
  qed
  have bottom: "0 < s" if "?ls \<noteq> []"
  proof -
    from that obtain r where "r \<in> set ?ls" by (cases ?ls) auto
    then have "r < s" "0 \<le> r" using rng by auto
    then show ?thesis by simp
  qed
  have up_top: "s < c - 1" if "last (s # ?hs) < c - 1"
    using that top by (cases "?hs = []") auto
  have down_bottom: "0 < s" if "0 < last (s # rev ?ls)"
    using that bottom by (cases "?ls = []") auto
  show ?thesis
    by (rule count_once)
      (use top bottom up_top down_bottom in \<open>auto simp: CSCAN_sequence Let_def simp del: last.simps\<close>)
qed

subsection \<open>Claims about the disk engine\<close>

text \<open>
  Claim C4. For every validated disk workload, the sequence visited by \<open>simulateLOOK\<close> is
  the start cylinder, then, when the initial direction is up, all strictly higher
  requests in ascending order followed by all strictly lower requests in descending
  order (mirrored when the direction is down); its \<open>seekDistance\<close> is the sum of the
  absolute differences of consecutive visited cylinders, with no exemption; and for 200
  cylinders, start 50, requests 82, 170, 43, 140, 24, 16, 190 and direction up the
  sequence is 50, 82, 140, 170, 190, 43, 24, 16.
\<close>

theorem look_sequence_and_distance:
  assumes "valid_disk_workload cylinders start requests"
  shows "sequence (simulateLOOK cylinders start requests True) =
           start # sort (filter (\<lambda>r. start < r) requests)
                 @ rev (sort (filter (\<lambda>r. r < start) requests))
       \<and> sequence (simulateLOOK cylinders start requests False) =
           start # rev (sort (filter (\<lambda>r. r < start) requests))
                 @ sort (filter (\<lambda>r. start < r) requests)
       \<and> seekDistance (simulateLOOK cylinders start requests initialDirection) =
           path_length (sequence (simulateLOOK cylinders start requests initialDirection))
       \<and> sequence (simulateLOOK 200 50 [82, 170, 43, 140, 24, 16, 190] True) =
           [50, 82, 140, 170, 190, 43, 24, 16]"
  by (simp add: LOOK_sequence LOOK_seek)

theorem look_sequence_and_distance_witness:
  "valid_disk_workload 200 50 [82, 170, 43, 140, 24, 16, 190]
 \<and> sequence (simulateLOOK 200 50 [82, 170, 43, 140, 24, 16, 190] True) =
     [50, 82, 140, 170, 190, 43, 24, 16]
 \<and> sequence (simulateLOOK 200 50 [82, 170, 43, 140, 24, 16, 190] False) =
     [50, 43, 24, 16, 82, 140, 170, 190]
 \<and> seekDistance (simulateLOOK 200 50 [82, 170, 43, 140, 24, 16, 190] True) = 314"
proof -
  have v: "valid_disk_workload 200 50 [82, 170, 43, 140, 24, 16, 190]"
    by (simp add: valid_disk_workload_def)
  from look_sequence_and_distance[OF v, of True] v show ?thesis by simp
qed

text \<open>
  Claim C3. For every validated disk workload with initial direction up and at least one
  request strictly below the start cylinder, \<open>simulateCSCAN\<close> serves the strictly higher
  requests in ascending order, then appends \<open>cylinders - 1\<close> (counted in \<open>seekDistance\<close>)
  unless the head is already there, then appends 0 as a wrap jump that adds nothing to
  \<open>seekDistance\<close>, then serves the strictly lower requests in ascending order; so
  \<open>seekDistance\<close> is the sum of the absolute differences of consecutive sequence elements
  minus exactly the wrap jump from \<open>cylinders - 1\<close> to 0.
\<close>

theorem cscan_up_wraparound:
  assumes "valid_disk_workload cylinders start requests"
    and "\<exists>r\<in>set requests. r < start"
  shows "sequence (simulateCSCAN cylinders start requests True) =
           start # sort (filter (\<lambda>r. start < r) requests)
             @ (if last (start # sort (filter (\<lambda>r. start < r) requests)) = cylinders - 1
                then [] else [cylinders - 1])
             @ 0 # sort (filter (\<lambda>r. r < start) requests)
       \<and> seekDistance (simulateCSCAN cylinders start requests True) =
           path_length (start # sort (filter (\<lambda>r. start < r) requests)
             @ (if last (start # sort (filter (\<lambda>r. start < r) requests)) = cylinders - 1
                then [] else [cylinders - 1]))
           + path_length (0 # sort (filter (\<lambda>r. r < start) requests))
       \<and> seekDistance (simulateCSCAN cylinders start requests True) =
           path_length (sequence (simulateCSCAN cylinders start requests True))
           - \<bar>0 - (cylinders - 1)\<bar>"
  using CSCAN_up_sequence[OF assms] CSCAN_up_seek[OF assms] CSCAN_up_wrap[OF assms]
  by simp

theorem cscan_up_wraparound_witness:
  "valid_disk_workload 200 50 [82, 170, 43, 140, 24, 16, 190]
 \<and> (\<exists>r\<in>set [82, 170, 43, 140, 24, 16, 190]. r < (50::int))
 \<and> sequence (simulateCSCAN 200 50 [82, 170, 43, 140, 24, 16, 190] True) =
     [50, 82, 140, 170, 190, 199, 0, 16, 24, 43]
 \<and> seekDistance (simulateCSCAN 200 50 [82, 170, 43, 140, 24, 16, 190] True) = 192
 \<and> path_length (sequence (simulateCSCAN 200 50 [82, 170, 43, 140, 24, 16, 190] True)) = 391"
proof -
  have v: "valid_disk_workload 200 50 [82, 170, 43, 140, 24, 16, 190]"
    by (simp add: valid_disk_workload_def)
  have l: "\<exists>r\<in>set [82, 170, 43, 140, 24, 16, 190]. r < (50::int)" by simp
  from cscan_up_wraparound[OF v l] v l show ?thesis by simp
qed

text \<open>
  Claim C8. For every validated disk workload, in both \<open>simulateLOOK\<close> and
  \<open>simulateCSCAN\<close> the start cylinder appears in the output sequence exactly once, at
  index 0: requests equal to the start cylinder are never visited again and add nothing
  to \<open>seekDistance\<close>, so that dropping them from the queue leaves the whole result
  unchanged.
\<close>

theorem start_cylinder_once:
  assumes "valid_disk_workload cylinders start requests"
  shows "sequence (simulateLOOK cylinders start requests initialDirection) ! 0 = start
       \<and> count_list (sequence (simulateLOOK cylinders start requests initialDirection)) start = 1
       \<and> simulateLOOK cylinders start (filter (\<lambda>r. r \<noteq> start) requests) initialDirection =
           simulateLOOK cylinders start requests initialDirection
       \<and> sequence (simulateCSCAN cylinders start requests initialDirection) ! 0 = start
       \<and> count_list (sequence (simulateCSCAN cylinders start requests initialDirection)) start = 1
       \<and> simulateCSCAN cylinders start (filter (\<lambda>r. r \<noteq> start) requests) initialDirection =
           simulateCSCAN cylinders start requests initialDirection"
  using LOOK_start_once[of cylinders start requests initialDirection]
    CSCAN_start_once[OF assms, of initialDirection]
  by (simp add: LOOK_drop_start CSCAN_drop_start)

theorem start_cylinder_once_witness:
  "valid_disk_workload 200 50 [82, 50, 43, 50, 199, 0]
 \<and> sequence (simulateLOOK 200 50 [82, 50, 43, 50, 199, 0] True) = [50, 82, 199, 43, 0]
 \<and> sequence (simulateCSCAN 200 50 [82, 50, 43, 50, 199, 0] True) = [50, 82, 199, 0, 0, 43]
 \<and> count_list (sequence (simulateCSCAN 200 50 [82, 50, 43, 50, 199, 0] True)) 50 = 1
 \<and> seekDistance (simulateLOOK 200 50 [82, 50, 43, 50, 199, 0] True) =
     seekDistance (simulateLOOK 200 50 [82, 43, 199, 0] True)"
proof -
  have v: "valid_disk_workload 200 50 [82, 50, 43, 50, 199, 0]"
    by (simp add: valid_disk_workload_def)
  have s: "sequence (simulateLOOK 200 50 [82, 50, 43, 50, 199, 0] True) = [50, 82, 199, 43, 0]"
    "sequence (simulateCSCAN 200 50 [82, 50, 43, 50, 199, 0] True) = [50, 82, 199, 0, 0, 43]"
    by (simp_all add: LOOK_sequence CSCAN_sequence)
  from start_cylinder_once[OF v, of True] v s show ?thesis by simp
qed

section \<open>Page replacement: proofs\<close>

lemma for_each_counted:
  assumes "I st"
    and "\<And>st x. I st \<Longrightarrow> x \<in> set xs \<Longrightarrow>
           \<exists>st'. body st x = Some st' \<and> I st' \<and> m st' = Suc (m st)"
  shows "\<exists>st'. for_each body st xs = Some st' \<and> I st' \<and> m st' = m st + length xs"
  using assms
proof (induction xs arbitrary: st)
  case Nil
  then show ?case by simp
next
  case (Cons x xs)
  from Cons.prems obtain st1 where st1: "body st x = Some st1" "I st1" "m st1 = Suc (m st)"
    by (meson list.set_intros(1))
  have "\<exists>st'. for_each body st1 xs = Some st' \<and> I st' \<and> m st' = m st1 + length xs"
    by (rule Cons.IH[OF st1(2)]) (simp add: Cons.prems(2))
  with st1 show ?case by simp
qed

lemma indexOf_None_iff: "indexOf xs x = None \<longleftrightarrow> x \<notin> set xs"
  by (induction xs) auto

lemma indexOf_Some: "indexOf xs x = Some i \<Longrightarrow> i < length xs \<and> xs ! i = x"
  by (induction xs arbitrary: i) (auto split: if_splits)

lemma indexOf_exists: "x \<in> set xs \<Longrightarrow> \<exists>i. indexOf xs x = Some i"
  using indexOf_None_iff[of xs x] by (cases "indexOf xs x") auto

text \<open>
  Clock positions: a sweep that starts at \<open>s\<close> probes slot \<open>(s + m) mod k\<close> at its
  \<open>m\<close>-th step.
\<close>

lemma clock_next: "0 < k \<Longrightarrow> ((s + i) mod k + 1) mod k = (s + (i + 1)) mod (k::nat)"
  by (metis add.assoc mod_add_left_eq)

lemma clock_inj_le:
  assumes "(s + i) mod k = (s + j) mod (k::nat)" "i \<le> j" "j < k"
  shows "i = j"
proof -
  have "k dvd (s + j) - (s + i)"
    using assms(1,2) mod_eq_dvd_iff_nat[of "s + i" "s + j" k] by simp
  then have "k dvd j - i" by simp
  moreover have "j - i < k" using assms by simp
  ultimately have "j - i = 0" using nat_dvd_not_less by blast
  with assms(2) show ?thesis by simp
qed

lemma clock_inj:
  assumes "(s + i) mod k = (s + j) mod (k::nat)" "i < k" "j < k"
  shows "i = j"
proof (cases "i \<le> j")
  case True
  then show ?thesis using clock_inj_le[OF assms(1) _ assms(3)] by simp
next
  case False
  then have "j \<le> i" by simp
  then show ?thesis using clock_inj_le[OF assms(1)[symmetric] _ assms(2)] by simp
qed

lemma clock_surj:
  assumes "s < k" "p < (k::nat)"
  shows "\<exists>m<k. (s + m) mod k = p"
proof (intro exI conjI)
  show "(p + k - s) mod k < k" using assms by simp
  have "(s + (p + k - s) mod k) mod k = (s + (p + k - s)) mod k"
    by (simp add: mod_add_right_eq)
  also have "\<dots> = p" using assms by simp
  finally show "(s + (p + k - s) mod k) mod k = p" .
qed

lemma clock_not_start:
  assumes "s < k" "0 < i" "i < (k::nat)"
  shows "(s + i) mod k \<noteq> s"
proof
  assume "(s + i) mod k = s"
  then have "(s + i) mod k = (s + 0) mod k" using assms(1) by simp
  then have "i = 0" using clock_inj assms by blast
  with assms(2) show False by simp
qed

lemma sweep_found:
  assumes k: "0 < k" "s < k" and len: "length frs = k" "length b = k"
    and ij: "i \<le> j" "j < k"
    and zero: "b ! ((s + j) mod k) = 0"
    and ones: "\<forall>m. i \<le> m \<and> m < j \<longrightarrow> b ! ((s + m) mod k) \<noteq> 0"
  shows "\<exists>b'. sweep k page s frs b ((s + i) mod k) lc rep reset i =
            Some (frs[(s + j) mod k := page], b', ((s + j) mod k + 1) mod k, lc,
                  Some ((s + j) mod k), reset, j + 1)
          \<and> length b' = k \<and> b' ! ((s + j) mod k) = 1
          \<and> set b' \<subseteq> insert 0 (insert 1 (set b))"
  using len(2) ij zero ones
proof (induction "j - i" arbitrary: i b)
  case 0
  then have "i = j" by simp
  have pk: "(s + j) mod k < k" using k by simp
  then have pk': "\<not> k \<le> (s + j) mod k" by simp
  have "sweep k page s frs b ((s + j) mod k) lc rep reset j =
          Some (frs[(s + j) mod k := page], b[(s + j) mod k := 1], ((s + j) mod k + 1) mod k, lc,
                Some ((s + j) mod k), reset, j + 1)"
    by (subst sweep.simps) (use pk' len(1) "0.prems" in simp)
  moreover have "set (b[(s + j) mod k := 1]) \<subseteq> insert 0 (insert 1 (set b))"
    using set_update_subset_insert[of b "(s + j) mod k" 1] by auto
  ultimately show ?case
    using \<open>i = j\<close> k(1) "0.prems"(1) by simp
next
  case (Suc d)
  then have lt: "i < j" by simp
  let ?p = "(s + i) mod k"
  let ?b1 = "b[?p := 0]"
  have pk: "?p < k" using k by simp
  then have pk': "\<not> k \<le> ?p" by simp
  have nz: "b ! ?p \<noteq> 0" using Suc.prems(5) lt by simp
  have next_p: "(?p + 1) mod k = (s + (i + 1)) mod k"
    by (rule clock_next[OF k(1)])
  have not_start: "(s + (i + 1)) mod k \<noteq> s"
    by (rule clock_not_start[OF k(2)]) (use lt Suc.prems(3) in simp_all)
  have unfold: "sweep k page s frs b ?p lc rep reset i =
                sweep k page s frs ?b1 ((s + (i + 1)) mod k) lc rep reset (i + 1)"
    by (subst sweep.simps) (use pk' len(1) Suc.prems(1) nz next_p not_start in \<open>simp add: Let_def\<close>)
  have other: "\<And>m. m < k \<Longrightarrow> m \<noteq> i \<Longrightarrow> ?b1 ! ((s + m) mod k) = b ! ((s + m) mod k)"
  proof -
    fix m assume "m < k" "m \<noteq> i"
    then have "(s + m) mod k \<noteq> ?p"
      using clock_inj[of s m k i] lt Suc.prems(3) by auto
    then show "?b1 ! ((s + m) mod k) = b ! ((s + m) mod k)" by simp
  qed
  have "\<exists>b'. sweep k page s frs ?b1 ((s + (i + 1)) mod k) lc rep reset (i + 1) =
            Some (frs[(s + j) mod k := page], b', ((s + j) mod k + 1) mod k, lc,
                  Some ((s + j) mod k), reset, j + 1)
          \<and> length b' = k \<and> b' ! ((s + j) mod k) = 1
          \<and> set b' \<subseteq> insert 0 (insert 1 (set ?b1))"
  proof (rule Suc.hyps(1))
    show "d = j - (i + 1)" using Suc.hyps(2) by simp
    show "length ?b1 = k" using Suc.prems(1) by simp
    show "i + 1 \<le> j" using lt by simp
    show "j < k" by (rule Suc.prems(3))
    show "?b1 ! ((s + j) mod k) = 0"
      using other[of j] lt Suc.prems(3,4) by simp
    show "\<forall>m. i + 1 \<le> m \<and> m < j \<longrightarrow> ?b1 ! ((s + m) mod k) \<noteq> 0"
      using other Suc.prems(3,5) by auto
  qed
  moreover have "set ?b1 \<subseteq> insert 0 (set b)"
    by (rule set_update_subset_insert)
  ultimately show ?case unfolding unfold by blast
qed


lemma sweep_revolution:
  assumes k: "0 < k" "s < k" and len: "length frs = k" "length b = k"
    and ik: "i < k"
    and ones: "\<forall>m. i \<le> m \<and> m < k \<longrightarrow> b ! ((s + m) mod k) \<noteq> 0"
    and cleared: "0 < i \<longrightarrow> b ! s = 0"
  shows "\<exists>b'. sweep k page s frs b ((s + i) mod k) 0 rep False i =
            Some (frs[s := page], b', (s + 1) mod k, 1, Some s, True, k + 1)
          \<and> length b' = k \<and> b' ! s = 1
          \<and> set b' \<subseteq> insert 0 (insert 1 (set b))"
  using len(2) ik ones cleared
proof (induction "k - Suc i" arbitrary: i b)
  case 0
  then have ik: "Suc i = k" by simp
  let ?p = "(s + i) mod k"
  let ?b1 = "b[?p := 0]"
  have pk: "?p < k" using k by simp
  then have pk': "\<not> k \<le> ?p" by simp
  have sk': "\<not> k \<le> s" using k by simp
  have nz: "b ! ?p \<noteq> 0" using "0.prems"(2,3) by simp
  have next_p: "(?p + 1) mod k = s"
    using clock_next[OF k(1), of s i] ik k(2) by simp
  have step1: "sweep k page s frs b ?p 0 rep False i =
               sweep k page s frs ?b1 s 1 rep True (i + 1)"
    by (subst sweep.simps) (use pk' len(1) "0.prems"(1) nz next_p in \<open>simp add: Let_def\<close>)
  have b1s: "?b1 ! s = 0"
  proof (cases "i = 0")
    case True
    then show ?thesis using k(2) "0.prems"(1) by simp
  next
    case False
    then have "?p \<noteq> s" using clock_not_start[OF k(2), of i] "0.prems"(2) by simp
    then show ?thesis using False "0.prems"(4) by simp
  qed
  have step2: "sweep k page s frs ?b1 s 1 rep True (i + 1) =
               Some (frs[s := page], ?b1[s := 1], (s + 1) mod k, 1, Some s, True, k + 1)"
    by (subst sweep.simps) (use sk' len(1) "0.prems"(1) b1s ik in simp)
  have "set (?b1[s := 1]) \<subseteq> insert 0 (insert 1 (set b))"
    using set_update_subset_insert[of ?b1 s 1] set_update_subset_insert[of b ?p 0] by auto
  then show ?case
    unfolding step1 step2 using "0.prems"(1) k(2) by simp
next
  case (Suc d)
  then have lt: "Suc i < k" by simp
  let ?p = "(s + i) mod k"
  let ?b1 = "b[?p := 0]"
  have pk: "?p < k" using k by simp
  then have pk': "\<not> k \<le> ?p" by simp
  have nz: "b ! ?p \<noteq> 0" using Suc.prems(2,3) by simp
  have next_p: "(?p + 1) mod k = (s + (i + 1)) mod k"
    by (rule clock_next[OF k(1)])
  have not_start: "(s + (i + 1)) mod k \<noteq> s"
    by (rule clock_not_start[OF k(2)]) (use lt in simp_all)
  have unfold: "sweep k page s frs b ?p 0 rep False i =
                sweep k page s frs ?b1 ((s + (i + 1)) mod k) 0 rep False (i + 1)"
    by (subst sweep.simps) (use pk' len(1) Suc.prems(1) nz next_p not_start in \<open>simp add: Let_def\<close>)
  have other: "\<And>m. m < k \<Longrightarrow> m \<noteq> i \<Longrightarrow> ?b1 ! ((s + m) mod k) = b ! ((s + m) mod k)"
  proof -
    fix m assume "m < k" "m \<noteq> i"
    then have "(s + m) mod k \<noteq> ?p"
      using clock_inj[of s m k i] Suc.prems(2) by auto
    then show "?b1 ! ((s + m) mod k) = b ! ((s + m) mod k)" by simp
  qed
  have "\<exists>b'. sweep k page s frs ?b1 ((s + (i + 1)) mod k) 0 rep False (i + 1) =
            Some (frs[s := page], b', (s + 1) mod k, 1, Some s, True, k + 1)
          \<and> length b' = k \<and> b' ! s = 1
          \<and> set b' \<subseteq> insert 0 (insert 1 (set ?b1))"
  proof (rule Suc.hyps(1))
    show "d = k - Suc (i + 1)" using Suc.hyps(2) by simp
    show "length ?b1 = k" using Suc.prems(1) by simp
    show "i + 1 < k" using lt by simp
    show "\<forall>m. i + 1 \<le> m \<and> m < k \<longrightarrow> ?b1 ! ((s + m) mod k) \<noteq> 0"
      using other Suc.prems(3) by auto
    show "0 < i + 1 \<longrightarrow> ?b1 ! s = 0"
    proof (cases "i = 0")
      case True
      then show ?thesis using k(2) Suc.prems(1) by simp
    next
      case False
      then have "?p \<noteq> s" using clock_not_start[OF k(2), of i] Suc.prems(2) by simp
      then show ?thesis using False Suc.prems(4) by simp
    qed
  qed
  moreover have "set ?b1 \<subseteq> insert 0 (set b)"
    by (rule set_update_subset_insert)
  ultimately show ?case unfolding unfold by blast
qed

text \<open>What one victim search does, started as the fault branch starts it.\<close>

lemma sweep_char:
  assumes k: "0 < k" "s < k" and len: "length frs = k" "length b = k"
  shows "\<exists>frs' b' p' lc v reset probes.
           sweep k page s frs b s 0 None False 0 = Some (frs', b', p', lc, Some v, reset, probes)
         \<and> v < k \<and> frs' = frs[v := page] \<and> length b' = k \<and> b' ! v = 1
         \<and> set b' \<subseteq> insert 0 (insert 1 (set b))
         \<and> p' < k \<and> lc \<le> 1 \<and> probes \<le> k + 1
         \<and> (reset \<longleftrightarrow> (\<forall>x\<in>set b. x \<noteq> 0))"
proof (cases "\<exists>m<k. b ! ((s + m) mod k) = 0")
  case True
  define j where "j = (LEAST m. m < k \<and> b ! ((s + m) mod k) = 0)"
  from True have j: "j < k \<and> b ! ((s + j) mod k) = 0"
    unfolding j_def by (rule LeastI_ex[where P="\<lambda>m. m < k \<and> b ! ((s + m) mod k) = 0"])
  have least: "\<forall>m. 0 \<le> m \<and> m < j \<longrightarrow> b ! ((s + m) mod k) \<noteq> 0"
  proof (intro allI impI)
    fix m assume m: "0 \<le> m \<and> m < j"
    show "b ! ((s + m) mod k) \<noteq> 0"
    proof
      assume "b ! ((s + m) mod k) = 0"
      then have "m < k \<and> b ! ((s + m) mod k) = 0" using m j by simp
      then have "j \<le> m" unfolding j_def by (rule Least_le)
      with m show False by simp
    qed
  qed
  obtain b' where b': "sweep k page s frs b ((s + 0) mod k) 0 None False 0 =
            Some (frs[(s + j) mod k := page], b', ((s + j) mod k + 1) mod k, 0,
                  Some ((s + j) mod k), False, j + 1)"
      "length b' = k" "b' ! ((s + j) mod k) = 1" "set b' \<subseteq> insert 0 (insert 1 (set b))"
    using sweep_found[OF k len, where i=0 and j=j and page=page and lc=0 and rep=None and reset=False] j least by auto
  have "(s + j) mod k < k" using k by simp
  then have "b ! ((s + j) mod k) \<in> set b" using len(2) by simp
  then have "\<not> (\<forall>x\<in>set b. x \<noteq> 0)" using j by auto
  then show ?thesis
    using b' k j by simp
next
  case False
  then have ones: "\<forall>m. 0 \<le> m \<and> m < k \<longrightarrow> b ! ((s + m) mod k) \<noteq> 0" by simp
  obtain b' where b': "sweep k page s frs b ((s + 0) mod k) 0 None False 0 =
            Some (frs[s := page], b', (s + 1) mod k, 1, Some s, True, k + 1)"
      "length b' = k" "b' ! s = 1" "set b' \<subseteq> insert 0 (insert 1 (set b))"
    using sweep_revolution[OF k len, where i=0 and page=page and rep=None] ones k(1) by auto
  have "\<forall>x\<in>set b. x \<noteq> 0"
  proof
    fix x assume "x \<in> set b"
    then obtain p where p: "p < k" "b ! p = x" using len(2) by (auto simp: in_set_conv_nth)
    then obtain m where "m < k" "(s + m) mod k = p" using clock_surj[OF k(2)] by blast
    then show "x \<noteq> 0" using ones p by auto
  qed
  then show ?thesis
    using b' k by auto
qed


lemma count_list_update_out:
  "i < length xs \<Longrightarrow> xs ! i = a \<Longrightarrow> y \<noteq> a \<Longrightarrow>
     count_list (xs[i := y]) a + 1 = count_list xs a"
  by (induction xs arbitrary: i) (auto split: nat.splits)

lemma count_list_update_same:
  "xs ! i \<noteq> a \<Longrightarrow> y \<noteq> a \<Longrightarrow> count_list (xs[i := y]) a = count_list xs a"
  by (induction xs arbitrary: i) (auto split: nat.splits)

lemma count_list_replicate_same: "count_list (replicate n a) a = n"
  by (induction n) auto

lemma count_list_pos_iff: "0 < count_list xs a \<longleftrightarrow> a \<in> set xs"
  by (induction xs) auto

lemma lru_body_inv:
  assumes "0 < k" "lru_inv k st"
  shows "\<exists>st'. lru_body st page = Some st' \<and> lru_inv k st' \<and> lru_steps st' = Suc (lru_steps st)"
proof -
  obtain frs order result where st: "st = (frs, order, result)" by (cases st)
  note inv = assms(2)[unfolded st lru_inv_def, simplified]
  show ?thesis
  proof (cases "indexOf frs page")
    case (Some frameIndex)
    then have fi: "frameIndex < k" using indexOf_Some inv by fastforce
    have "set (splice1 pos order) \<subseteq> set order" for pos
      unfolding splice1_def by (auto dest: in_set_takeD in_set_dropD)
    then show ?thesis
      using Some fi inv unfolding st
      by (auto simp: lru_inv_def lru_steps_def lru_step_ok_def Let_def split: option.splits)
  next
    case None
    then have notin: "page \<notin> set frs" by (simp add: indexOf_None_iff)
    show ?thesis
    proof (cases "-1 \<in> set frs")
      case True
      then obtain e where e: "indexOf frs (-1) = Some e" using indexOf_exists by fastforce
      then have "e < k" using indexOf_Some inv by fastforce
      then show ?thesis
        using None notin True e inv unfolding st
        by (auto simp: lru_inv_def lru_steps_def lru_step_ok_def Let_def)
    next
      case False
      have "frs \<noteq> []" using assms(1) inv by auto
      then have "order \<noteq> []" using False inv by (cases frs) auto
      then obtain r rest where order: "order = r # rest" by (cases order) auto
      then have "r < k" using inv by simp
      show ?thesis
        using None notin False order \<open>r < k\<close> inv unfolding st
        by (auto simp: lru_inv_def lru_steps_def lru_step_ok_def Let_def)
    qed
  qed
qed


lemma arb_step_ok_literal:
  "arb_step_ok k \<lparr>reference = r, frames = f, framesAfter = fa, isFault = fl, refBits = rb,
       refBitsAfter = rba, replacedFrame = rf, resetBits = rs, pointerPosition = pp,
       pointerPositionAfter = ppa, orderOfUse = oo\<rparr> \<longleftrightarrow>
     length f = k \<and>
     (\<exists>bits bits'. rb = Some bits \<and> rba = Some bits' \<and> length bits = k \<and> length bits' = k
        \<and> (if fl
            then (\<exists>v. rf = Some v \<and> v < k \<and> fa = f[v := r] \<and> r \<notin> set f \<and> bits' ! v = 1
                      \<and> (rs = Some True \<longleftrightarrow> -1 \<notin> set f \<and> (\<forall>b\<in>set bits. b = 1)))
            else (\<exists>i. indexOf f r = Some i \<and> fa = f \<and> bits' ! i = 1 \<and> rs = Some False)))"
  by (simp add: arb_step_ok_def)

lemma arb_body_inv:
  assumes "0 < k" "arb_inv k st"
  shows "\<exists>st'. arb_body k st page = Some st' \<and> arb_inv k st'
           \<and> arb_steps st' = Suc (arb_steps st)
           \<and> (arb_inv2 k st \<and> 0 \<le> page \<longrightarrow> arb_inv2 k st')"
proof -
  obtain frs bits pointer framesFilled result sweeps
    where st: "st = (frs, bits, pointer, framesFilled, result, sweeps)" by (cases st)
  note inv = assms(2)[unfolded st arb_inv_def, simplified]
  show ?thesis
  proof (cases "indexOf frs page")
    case (Some frameIndex)
    then have fi: "frameIndex < k" using indexOf_Some inv by fastforce
    have "set (bits[frameIndex := 1]) \<subseteq> insert 1 (set bits)"
      by (rule set_update_subset_insert)
    then show ?thesis
      using Some fi inv unfolding st
      by (auto simp: arb_inv_def arb_inv2_def arb_steps_def arb_step_ok_literal Let_def)
  next
    case None
    then have notin: "page \<notin> set frs" by (simp add: indexOf_None_iff)
    show ?thesis
    proof (cases "framesFilled < k")
      case True
      then have "0 < count_list frs (-1)" using inv by simp
      then have mem: "-1 \<in> set frs" by (simp add: count_list_pos_iff)
      then obtain e where e: "indexOf frs (-1) = Some e" using indexOf_exists by fastforce
      then have ek: "e < k" "frs ! e = -1" using indexOf_Some inv by fastforce+
      have "page \<noteq> -1" using notin mem by auto
      then have cnt: "count_list (frs[e := page]) (-1) + 1 = count_list frs (-1)"
        using count_list_update_out[of e frs "-1" page] ek inv by simp
      have "set (bits[e := 1]) \<subseteq> insert 1 (set bits)"
        by (rule set_update_subset_insert)
      then show ?thesis
        using None notin True e ek mem cnt inv assms(1) unfolding st
        by (auto simp: arb_inv_def arb_inv2_def arb_steps_def arb_step_ok_literal Let_def)
    next
      case False
      then have ff: "framesFilled = k" using inv by simp
      obtain frs' b' p' lc v reset probes where sw:
        "sweep k page pointer frs bits pointer 0 None False 0 =
           Some (frs', b', p', lc, Some v, reset, probes)"
        "v < k" "frs' = frs[v := page]" "length b' = k" "b' ! v = 1"
        "set b' \<subseteq> insert 0 (insert 1 (set bits))"
        "p' < k" "lc \<le> 1" "probes \<le> k + 1"
        "reset \<longleftrightarrow> (\<forall>x\<in>set bits. x \<noteq> 0)"
        using sweep_char[of k pointer frs bits page] assms(1) inv by blast
      have part1: "\<exists>st'. arb_body k st page = Some st' \<and> arb_inv k st'
           \<and> arb_steps st' = Suc (arb_steps st)"
        using None False ff sw inv unfolding st
        by (auto simp: arb_inv_def arb_steps_def Let_def)
      have part2: "arb_inv2 k st'" if "arb_inv2 k st" "0 \<le> page" "arb_body k st page = Some st'" for st'
      proof -
        note inv2 = that(1)[unfolded st arb_inv2_def, simplified]
        have full: "-1 \<notin> set frs"
          using inv2 ff count_list_pos_iff[of frs "-1"] by simp
        then have "frs ! v \<noteq> -1" using sw(2) inv by (metis nth_mem)
        then have cnt: "count_list (frs[v := page]) (-1) = count_list frs (-1)"
          using count_list_update_same[of frs v "-1" page] that(2) by simp
        have bits': "set b' \<subseteq> {0, 1}" using sw(6) inv2 by auto
        have "(\<forall>x\<in>set bits. x \<noteq> 0) \<longleftrightarrow> (\<forall>b\<in>set bits. b = 1)"
          using inv2 by auto
        then have reset: "reset \<longleftrightarrow> (\<forall>b\<in>set bits. b = 1)" using sw(10) by simp
        show ?thesis
          using that(3) None notin False ff sw(1-5,7) full cnt bits' reset inv inv2 unfolding st
          by (auto simp: arb_inv2_def arb_step_ok_literal Let_def)
      qed
      show ?thesis using part1 part2 by auto
    qed
  qed
qed

lemma lru_run:
  assumes "0 < k"
  shows "\<exists>st. for_each lru_body (replicate k (-1), [], \<lparr>steps = [], faults = 0, hits = 0\<rparr>) refs
                = Some st \<and> lru_inv k st \<and> lru_steps st = length refs"
proof -
  let ?init = "(replicate k (-1), [], \<lparr>steps = [], faults = 0, hits = 0\<rparr>) :: lru_state"
  have "lru_inv k ?init" by (auto simp: lru_inv_def)
  then have "\<exists>st'. for_each lru_body ?init refs = Some st' \<and> lru_inv k st'
               \<and> lru_steps st' = lru_steps ?init + length refs"
    by (rule for_each_counted) (use lru_body_inv[OF assms] in blast)
  then show ?thesis by (simp add: lru_steps_def)
qed

lemma arb_run_inv:
  assumes "0 < k"
  shows "\<exists>st. arb_run k refs = Some st
           \<and> (arb_inv k st \<and> ((\<forall>r\<in>set refs. 0 \<le> r) \<longrightarrow> arb_inv2 k st))
           \<and> arb_steps st = length refs"
proof -
  let ?init = "(replicate k (-1), replicate k 0, 0, 0,
                \<lparr>steps = [], faults = 0, hits = 0\<rparr>, []) :: arb_state"
  let ?I = "\<lambda>st. arb_inv k st \<and> ((\<forall>r\<in>set refs. 0 \<le> r) \<longrightarrow> arb_inv2 k st)"
  have "?I ?init"
    using assms by (auto simp: arb_inv_def arb_inv2_def count_list_replicate_same)
  then have "\<exists>st'. for_each (arb_body k) ?init refs = Some st' \<and> ?I st'
               \<and> arb_steps st' = arb_steps ?init + length refs"
  proof (rule for_each_counted)
    fix st x assume "?I st" "x \<in> set refs"
    then show "\<exists>st'. arb_body k st x = Some st' \<and> ?I st' \<and> arb_steps st' = Suc (arb_steps st)"
      using arb_body_inv[OF assms, of st x] by auto
  qed
  then show ?thesis by (simp add: arb_run_def arb_steps_def)
qed

text \<open>The aging variant: the loop over indexed references, the shift and the minimum.\<close>

lemma for_each_indexed:
  assumes "I n st"
    and "\<And>i st x. I i st \<Longrightarrow> x \<in> set xs \<Longrightarrow> \<exists>st'. body st (i, x) = Some st' \<and> I (Suc i) st'"
  shows "\<exists>st'. for_each body st (zip [n..<n + length xs] xs) = Some st' \<and> I (n + length xs) st'"
  using assms
proof (induction xs arbitrary: n st)
  case Nil
  then show ?case by simp
next
  case (Cons x xs)
  from Cons.prems obtain st1 where st1: "body st (n, x) = Some st1" "I (Suc n) st1"
    by (meson list.set_intros(1))
  have "\<exists>st'. for_each body st1 (zip [Suc n..<Suc n + length xs] xs) = Some st'
           \<and> I (Suc n + length xs) st'"
    by (rule Cons.IH[OF st1(2)]) (simp add: Cons.prems(2))
  moreover have "[n..<n + length (x # xs)] = n # [Suc n..<Suc n + length xs]"
    by (simp add: upt_rec)
  ultimately show ?case using st1 by simp
qed

lemma shift_history_length:
  "length (fst (foldl (shift_history frs) hb js)) = length (fst hb)
 \<and> length (snd (foldl (shift_history frs) hb js)) = length (snd hb)"
  by (induction js arbitrary: hb) (auto simp: shift_history_def Let_def split: prod.splits)

lemma lowest_history_index:
  "snd (foldl (lowest_history hist) mv js) \<in> insert (snd mv) (set js)"
proof (induction js arbitrary: mv)
  case Nil
  then show ?case by simp
next
  case (Cons j js)
  obtain m v where mv: "mv = (m, v)" by (cases mv)
  show ?case
    using Cons.IH[of "lowest_history hist mv j"]
    by (auto simp: lowest_history_def mv split: if_splits)
qed

lemma aging_step_ok_literal:
  "aging_step_ok k \<lparr>reference = r, frames = f, framesAfter = fa, isFault = fl, refBits = rb,
       refBitsAfter = rba, replacedFrame = rf, resetBits = rs, pointerPosition = pp,
       pointerPositionAfter = ppa, orderOfUse = oo\<rparr> \<longleftrightarrow>
     (\<exists>bits'. rba = Some bits' \<and> length bits' = k
        \<and> (if fl
            then (\<exists>v. rf = Some v \<and> v < k \<and> fa ! v = r \<and> bits' ! v = 1)
            else (\<exists>i. indexOf f r = Some i \<and> i < k \<and> fa ! i = r \<and> bits' ! i = 1)))"
  by (simp add: aging_step_ok_def)

lemma aging_body_inv:
  assumes "0 < k" "aging_inv k i st"
  shows "\<exists>st'. aging_body k st (i, page) = Some st' \<and> aging_inv k (Suc i) st'"
proof -
  obtain frs hist bits framesFilled pointer result
    where st: "st = (frs, hist, bits, framesFilled, pointer, result)" by (cases st)
  note inv = assms(2)[unfolded st aging_inv_def, simplified]
  define hb where "hb = (if 0 < i then foldl (shift_history frs) (hist, bits) [0..<k]
                         else (hist, bits))"
  obtain hist0 bits0 where hb0: "hb = (hist0, bits0)" by (cases hb)
  have len0: "length hist0 = k" "length bits0 = k"
    using shift_history_length[of frs "(hist, bits)" "[0..<k]"] inv hb0
    by (auto simp: hb_def split: if_splits)
  have old: "\<forall>n<Suc i. aging_step_ok k ((steps result @ [s]) ! n)
                  \<and> resetBits ((steps result @ [s]) ! n) = Some (0 < n)"
    if "aging_step_ok k s" "resetBits s = Some (0 < i)" for s
    using that inv by (auto simp: nth_append less_Suc_eq)
  show ?thesis
  proof (cases "indexOf frs page")
    case (Some frameIndex)
    then have fi: "frameIndex < k" "frs ! frameIndex = page" using indexOf_Some inv by fastforce+
    show ?thesis
      using Some fi inv len0 hb0 unfolding st
      by (auto simp: aging_inv_def aging_step_ok_literal Let_def hb_def[symmetric]
          nth_append less_Suc_eq)
  next
    case None
    then have notin: "page \<notin> set frs" by (simp add: indexOf_None_iff)
    show ?thesis
    proof (cases "framesFilled < k")
      case True
      then have "0 < count_list frs (-1)" using inv by simp
      then have mem: "-1 \<in> set frs" by (simp add: count_list_pos_iff)
      then obtain e where e: "indexOf frs (-1) = Some e" using indexOf_exists by fastforce
      then have ek: "e < k" "frs ! e = -1" using indexOf_Some inv by fastforce+
      have "page \<noteq> -1" using notin mem by auto
      then have cnt: "count_list (frs[e := page]) (-1) + 1 = count_list frs (-1)"
        using count_list_update_out[of e frs "-1" page] ek inv by simp
      show ?thesis
        using None True e ek cnt inv len0 hb0 unfolding st
        by (auto simp: aging_inv_def aging_step_ok_literal Let_def hb_def[symmetric]
            nth_append less_Suc_eq)
    next
      case False
      then have ff: "framesFilled = k" using inv by simp
      obtain mv v where mv: "foldl (lowest_history hist0) (9007199254740991, 0) [0..<k] = (mv, v)"
        by (cases "foldl (lowest_history hist0) (9007199254740991, 0) [0..<k]")
      have vk: "v < k"
        using lowest_history_index[of hist0 "(9007199254740991, 0)" "[0..<k]"] mv assms(1)
        by auto
      show ?thesis
        using None False ff mv vk inv len0 hb0 unfolding st
        by (auto simp: aging_inv_def aging_step_ok_literal Let_def hb_def[symmetric]
            nth_append less_Suc_eq)
    qed
  qed
qed

lemma aging_run:
  assumes "0 < k"
  shows "\<exists>st. for_each (aging_body k)
                 (replicate k (-1), replicate k 0, replicate k 0, 0, 0,
                  \<lparr>steps = [], faults = 0, hits = 0\<rparr>)
                 (zip [0..<length refs] refs) = Some st
              \<and> aging_inv k (length refs) st"
proof -
  let ?init = "(replicate k (-1), replicate k 0, replicate k 0, 0, 0,
                \<lparr>steps = [], faults = 0, hits = 0\<rparr>) :: aging_state"
  have "aging_inv k 0 ?init"
    by (simp add: aging_inv_def count_list_replicate_same)
  then have "\<exists>st'. for_each (aging_body k) ?init (zip [0..<0 + length refs] refs) = Some st'
               \<and> aging_inv k (0 + length refs) st'"
    by (rule for_each_indexed) (use aging_body_inv[OF assms] in blast)
  then show ?thesis by simp
qed

subsection \<open>Claims about the page-replacement engine\<close>

text \<open>
  Claim C1. For every \<open>frameCount \<ge> 1\<close> and every reference sequence, both \<open>simulateLRU\<close>
  and \<open>simulateARB\<close> return a result in which \<open>faults + hits\<close> is the length of the
  reference sequence (and there is one step for each reference).
\<close>

theorem faults_plus_hits_eq_length:
  assumes "1 \<le> frameCount"
  shows "(\<exists>r. simulateLRU frameCount refString = Some r
              \<and> faults r + hits r = length refString \<and> length (steps r) = length refString)
       \<and> (\<exists>r. simulateARB frameCount refString = Some r
              \<and> faults r + hits r = length refString \<and> length (steps r) = length refString)"
proof
  from assms have k: "0 < frameCount" by simp
  from lru_run[OF k, of refString]
  show "\<exists>r. simulateLRU frameCount refString = Some r
          \<and> faults r + hits r = length refString \<and> length (steps r) = length refString"
    by (auto simp: simulateLRU_def lru_inv_def lru_steps_def)
  from arb_run_inv[OF k, of refString]
  show "\<exists>r. simulateARB frameCount refString = Some r
          \<and> faults r + hits r = length refString \<and> length (steps r) = length refString"
    by (auto simp: simulateARB_def arb_inv_def arb_steps_def)
qed

theorem faults_plus_hits_eq_length_witness:
  "(1::nat) \<le> 2
 \<and> (\<exists>r. simulateLRU 2 [1, 2, 1, 3] = Some r \<and> faults r + hits r = 4 \<and> length (steps r) = 4)
 \<and> (\<exists>r. simulateARB 2 [1, 2, 1, 3] = Some r \<and> faults r + hits r = 4 \<and> length (steps r) = 4)"
  using faults_plus_hits_eq_length[of 2 "[1, 2, 1, 3]"] by (simp add: eval_nat_numeral)

text \<open>
  Claim C2. \<open>simulateLRU\<close> with 3 frames and the reference sequence
  7, 0, 1, 2, 0, 3, 0, 4, 2, 3, 0, 3, 2 returns 9 faults and 4 hits, and on each fault
  that finds the frame table full it evicts the frame at the front of the
  least-recently-used order list.
\<close>

theorem lru_textbook_scenario:
  "map_option faults (simulateLRU 3 [7, 0, 1, 2, 0, 3, 0, 4, 2, 3, 0, 3, 2]) = Some 9
 \<and> map_option hits (simulateLRU 3 [7, 0, 1, 2, 0, 3, 0, 4, 2, 3, 0, 3, 2]) = Some 4
 \<and> map_option (evicts_lru_front [] \<circ> steps)
      (simulateLRU 3 [7, 0, 1, 2, 0, 3, 0, 4, 2, 3, 0, 3, 2]) = Some True"
  by code_simp

text \<open>
  The fourth reference is such a fault: the table holds 7, 0, 1, the order left by the
  third step is 0, 1, 2, and frame 0 is replaced.
\<close>

theorem lru_textbook_scenario_witness:
  "(map_option faults (simulateLRU 3 [7, 0, 1, 2, 0, 3, 0, 4, 2, 3, 0, 3, 2]) = Some 9
    \<and> map_option hits (simulateLRU 3 [7, 0, 1, 2, 0, 3, 0, 4, 2, 3, 0, 3, 2]) = Some 4
    \<and> map_option (evicts_lru_front [] \<circ> steps)
         (simulateLRU 3 [7, 0, 1, 2, 0, 3, 0, 4, 2, 3, 0, 3, 2]) = Some True)
 \<and> map_option (\<lambda>r. (orderOfUse (steps r ! 2), isFault (steps r ! 3), frames (steps r ! 3),
                      replacedFrame (steps r ! 3), framesAfter (steps r ! 3)))
      (simulateLRU 3 [7, 0, 1, 2, 0, 3, 0, 4, 2, 3, 0, 3, 2])
    = Some (Some [0, 1, 2], True, [7, 0, 1], Some 0, [2, 0, 1])"
proof (rule conjI[OF lru_textbook_scenario])
  show "map_option (\<lambda>r. (orderOfUse (steps r ! 2), isFault (steps r ! 3), frames (steps r ! 3),
                      replacedFrame (steps r ! 3), framesAfter (steps r ! 3)))
      (simulateLRU 3 [7, 0, 1, 2, 0, 3, 0, 4, 2, 3, 0, 3, 2])
    = Some (Some [0, 1, 2], True, [7, 0, 1], Some 0, [2, 0, 1])"
    by code_simp
qed

text \<open>
  Claim C6, as amended. The source holds two variants of \<open>simulateARB\<close>. In both, on
  validated workloads, a frame's reference bit is 1 immediately after that frame is
  loaded or hit. In the clock variant a step's \<open>resetBits\<close> flag is set if and only if
  the step is a fault on a full frame table all of whose reference bits were 1 at the
  start of that fault's sweep. In the aging variant the flag is set on every step but
  the first, whether it hits or faults.
\<close>

theorem arb_reference_bits_and_reset_flag:
  assumes "1 \<le> frameCount" "\<forall>r\<in>set refString. 0 \<le> r"
  shows "(\<exists>res. simulateARB frameCount refString = Some res \<and>
           (\<forall>s\<in>set (steps res). \<exists>bits bits'.
              refBits s = Some bits \<and> refBitsAfter s = Some bits' \<and>
              (isFault s \<longrightarrow>
                 (\<exists>v. replacedFrame s = Some v \<and> v < length bits'
                     \<and> framesAfter s ! v = reference s \<and> bits' ! v = 1)) \<and>
              (\<not> isFault s \<longrightarrow>
                 (\<exists>i. indexOf (frames s) (reference s) = Some i \<and> i < length bits'
                     \<and> framesAfter s ! i = reference s \<and> bits' ! i = 1)) \<and>
              (resetBits s = Some True \<longleftrightarrow>
                 isFault s \<and> -1 \<notin> set (frames s) \<and> (\<forall>b\<in>set bits. b = 1))))
       \<and> (\<exists>res. simulateARB_aging frameCount refString = Some res \<and>
           length (steps res) = length refString \<and>
           (\<forall>n<length (steps res). \<exists>bits'.
              refBitsAfter (steps res ! n) = Some bits' \<and>
              (isFault (steps res ! n) \<longrightarrow>
                 (\<exists>v. replacedFrame (steps res ! n) = Some v \<and> v < length bits'
                     \<and> framesAfter (steps res ! n) ! v = reference (steps res ! n)
                     \<and> bits' ! v = 1)) \<and>
              (\<not> isFault (steps res ! n) \<longrightarrow>
                 (\<exists>i. indexOf (frames (steps res ! n)) (reference (steps res ! n)) = Some i
                     \<and> i < length bits'
                     \<and> framesAfter (steps res ! n) ! i = reference (steps res ! n)
                     \<and> bits' ! i = 1)) \<and>
              resetBits (steps res ! n) = Some (0 < n)))"
proof
  from assms have k: "0 < frameCount" by simp
  from arb_run_inv[OF k, of refString] assms(2) obtain st
    where st: "arb_run frameCount refString = Some st" "arb_inv2 frameCount st" by blast
  obtain frs bits pointer framesFilled result sweeps
    where "st = (frs, bits, pointer, framesFilled, result, sweeps)" by (cases st)
  with st have res: "simulateARB frameCount refString = Some result"
    "\<forall>s\<in>set (steps result). arb_step_ok frameCount s"
    by (auto simp: simulateARB_def arb_inv2_def)
  have "\<exists>bits bits'.
              refBits s = Some bits \<and> refBitsAfter s = Some bits' \<and>
              (isFault s \<longrightarrow>
                 (\<exists>v. replacedFrame s = Some v \<and> v < length bits'
                     \<and> framesAfter s ! v = reference s \<and> bits' ! v = 1)) \<and>
              (\<not> isFault s \<longrightarrow>
                 (\<exists>i. indexOf (frames s) (reference s) = Some i \<and> i < length bits'
                     \<and> framesAfter s ! i = reference s \<and> bits' ! i = 1)) \<and>
              (resetBits s = Some True \<longleftrightarrow>
                 isFault s \<and> -1 \<notin> set (frames s) \<and> (\<forall>b\<in>set bits. b = 1))"
    if "s \<in> set (steps result)" for s
  proof -
    from that have ok: "arb_step_ok frameCount s" using res(2) by blast
    then obtain b b' where b: "refBits s = Some b" "refBitsAfter s = Some b'"
      "length (frames s) = frameCount" "length b = frameCount" "length b' = frameCount"
      by (auto simp: arb_step_ok_def)
    show ?thesis
    proof (cases "isFault s")
      case True
      then show ?thesis using ok b by (auto simp: arb_step_ok_def)
    next
      case False
      then show ?thesis using ok b by (auto simp: arb_step_ok_def dest: indexOf_Some)
    qed
  qed
  with res(1)
  show "\<exists>res. simulateARB frameCount refString = Some res \<and>
           (\<forall>s\<in>set (steps res). \<exists>bits bits'.
              refBits s = Some bits \<and> refBitsAfter s = Some bits' \<and>
              (isFault s \<longrightarrow>
                 (\<exists>v. replacedFrame s = Some v \<and> v < length bits'
                     \<and> framesAfter s ! v = reference s \<and> bits' ! v = 1)) \<and>
              (\<not> isFault s \<longrightarrow>
                 (\<exists>i. indexOf (frames s) (reference s) = Some i \<and> i < length bits'
                     \<and> framesAfter s ! i = reference s \<and> bits' ! i = 1)) \<and>
              (resetBits s = Some True \<longleftrightarrow>
                 isFault s \<and> -1 \<notin> set (frames s) \<and> (\<forall>b\<in>set bits. b = 1)))"
    by blast
  from aging_run[OF k, of refString] obtain ast
    where ast: "for_each (aging_body frameCount)
                 (replicate frameCount (-1), replicate frameCount 0, replicate frameCount 0, 0, 0,
                  \<lparr>steps = [], faults = 0, hits = 0\<rparr>)
                 (zip [0..<length refString] refString) = Some ast"
      "aging_inv frameCount (length refString) ast" by blast
  obtain afrs ahist abits afilled apointer aresult
    where "ast = (afrs, ahist, abits, afilled, apointer, aresult)" by (cases ast)
  with ast have ares: "simulateARB_aging frameCount refString = Some aresult"
    "length (steps aresult) = length refString"
    "\<forall>n<length refString. aging_step_ok frameCount (steps aresult ! n)
        \<and> resetBits (steps aresult ! n) = Some (0 < n)"
    by (auto simp: simulateARB_aging_def aging_inv_def)
  have "\<exists>bits'.
              refBitsAfter (steps aresult ! n) = Some bits' \<and>
              (isFault (steps aresult ! n) \<longrightarrow>
                 (\<exists>v. replacedFrame (steps aresult ! n) = Some v \<and> v < length bits'
                     \<and> framesAfter (steps aresult ! n) ! v = reference (steps aresult ! n)
                     \<and> bits' ! v = 1)) \<and>
              (\<not> isFault (steps aresult ! n) \<longrightarrow>
                 (\<exists>i. indexOf (frames (steps aresult ! n)) (reference (steps aresult ! n)) = Some i
                     \<and> i < length bits'
                     \<and> framesAfter (steps aresult ! n) ! i = reference (steps aresult ! n)
                     \<and> bits' ! i = 1)) \<and>
              resetBits (steps aresult ! n) = Some (0 < n)"
    if "n < length (steps aresult)" for n
  proof -
    from that ares have ok: "aging_step_ok frameCount (steps aresult ! n)"
      "resetBits (steps aresult ! n) = Some (0 < n)" by auto
    show ?thesis
    proof (cases "isFault (steps aresult ! n)")
      case True
      then show ?thesis using ok by (auto simp: aging_step_ok_def)
    next
      case False
      then show ?thesis using ok by (auto simp: aging_step_ok_def)
    qed
  qed
  with ares(1,2)
  show "\<exists>res. simulateARB_aging frameCount refString = Some res \<and>
           length (steps res) = length refString \<and>
           (\<forall>n<length (steps res). \<exists>bits'.
              refBitsAfter (steps res ! n) = Some bits' \<and>
              (isFault (steps res ! n) \<longrightarrow>
                 (\<exists>v. replacedFrame (steps res ! n) = Some v \<and> v < length bits'
                     \<and> framesAfter (steps res ! n) ! v = reference (steps res ! n)
                     \<and> bits' ! v = 1)) \<and>
              (\<not> isFault (steps res ! n) \<longrightarrow>
                 (\<exists>i. indexOf (frames (steps res ! n)) (reference (steps res ! n)) = Some i
                     \<and> i < length bits'
                     \<and> framesAfter (steps res ! n) ! i = reference (steps res ! n)
                     \<and> bits' ! i = 1)) \<and>
              resetBits (steps res ! n) = Some (0 < n))"
    by blast
qed

text \<open>
  With one frame, the second of two different pages faults on a full table whose only
  bit is 1: the clock variant flags the step, and so does the aging variant, which
  flags every step after the first.
\<close>

theorem arb_reference_bits_and_reset_flag_witness:
  "(1::nat) \<le> 1 \<and> list_all (\<lambda>r. 0 \<le> r) [1, 2 :: int]
 \<and> map_option fault_and_reset_flags (simulateARB 1 [1, 2]) =
     Some [(True, Some False), (True, Some True)]
 \<and> map_option fault_and_reset_flags (simulateARB_aging 1 [1, 2]) =
     Some [(True, Some False), (True, Some True)]
 \<and> (\<exists>res. simulateARB 1 [1, 2] = Some res \<and>
           (\<forall>s\<in>set (steps res). \<exists>bits bits'.
              refBits s = Some bits \<and> refBitsAfter s = Some bits' \<and>
              (isFault s \<longrightarrow>
                 (\<exists>v. replacedFrame s = Some v \<and> v < length bits'
                     \<and> framesAfter s ! v = reference s \<and> bits' ! v = 1)) \<and>
              (\<not> isFault s \<longrightarrow>
                 (\<exists>i. indexOf (frames s) (reference s) = Some i \<and> i < length bits'
                     \<and> framesAfter s ! i = reference s \<and> bits' ! i = 1)) \<and>
              (resetBits s = Some True \<longleftrightarrow>
                 isFault s \<and> -1 \<notin> set (frames s) \<and> (\<forall>b\<in>set bits. b = 1))))"
proof -
  have h: "(1::nat) \<le> 1" "\<forall>r\<in>set [1, 2 :: int]. 0 \<le> r" by simp_all
  have e: "map_option fault_and_reset_flags (simulateARB 1 [1, 2]) =
     Some [(True, Some False), (True, Some True)]"
    "map_option fault_and_reset_flags (simulateARB_aging 1 [1, 2]) =
     Some [(True, Some False), (True, Some True)]" by code_simp+
  from arb_reference_bits_and_reset_flag[OF h, THEN conjunct1] h e
  show ?thesis by (simp add: list_all_iff)
qed

text \<open>
  Claim C6 as stated gives the clock's condition for the flag to \<open>simulateARB\<close> without
  naming the variant. In the aging variant the flag is \<open>shouldShiftBits\<close>: with one frame
  and the references 1, 1 the second step is a hit and is flagged.
\<close>

theorem aging_reset_flag_on_hit:
  "map_option fault_and_reset_flags (simulateARB_aging 1 [1, 1]) =
     Some [(True, Some False), (False, Some True)]"
  by code_simp

text \<open>
  Claim C7. For every \<open>frameCount \<ge> 1\<close> and every reference sequence, the victim search of
  \<open>simulateARB\<close> finds a victim no later than the first probe after one full revolution
  (at most \<open>frameCount + 1\<close> probes), so \<open>simulateARB\<close> returns, and the forced eviction
  of the branch \<open>loopCount > 1\<close> is never executed (every search ends with
  \<open>loopCount \<le> 1\<close>).
\<close>

theorem clock_sweep_terminates:
  assumes "1 \<le> frameCount"
  shows "\<exists>frs bits pointer framesFilled result sweeps.
           arb_run frameCount refString = Some (frs, bits, pointer, framesFilled, result, sweeps)
         \<and> simulateARB frameCount refString = Some result
         \<and> (\<forall>(loopCount, probes)\<in>set sweeps. loopCount \<le> 1 \<and> probes \<le> frameCount + 1)"
proof -
  from assms have k: "0 < frameCount" by simp
  from arb_run_inv[OF k, of refString] obtain st
    where st: "arb_run frameCount refString = Some st" "arb_inv frameCount st" by blast
  obtain frs bits pointer framesFilled result sweeps
    where "st = (frs, bits, pointer, framesFilled, result, sweeps)" by (cases st)
  with st show ?thesis by (auto simp: simulateARB_def arb_inv_def)
qed

text \<open>
  Three frames, references 1, 2, 3, 4, 2, 5: two searches are run; the first goes once
  around and takes four probes, the second clears one bit and takes two.
\<close>

theorem clock_sweep_terminates_witness:
  "(1::nat) \<le> 3
 \<and> map_option (\<lambda>(frs, bits, pointer, framesFilled, result, sweeps). sweeps)
      (arb_run 3 [1, 2, 3, 4, 2, 5]) = Some [(1, 4), (0, 2)]
 \<and> (\<exists>frs bits pointer framesFilled result sweeps.
           arb_run 3 [1, 2, 3, 4, 2, 5] = Some (frs, bits, pointer, framesFilled, result, sweeps)
         \<and> simulateARB 3 [1, 2, 3, 4, 2, 5] = Some result
         \<and> (\<forall>(loopCount, probes)\<in>set sweeps. loopCount \<le> 1 \<and> probes \<le> 3 + 1))"
proof -
  have h: "(1::nat) \<le> 3" by simp
  have e: "map_option (\<lambda>(frs, bits, pointer, framesFilled, result, sweeps). sweeps)
      (arb_run 3 [1, 2, 3, 4, 2, 5]) = Some [(1, 4), (0, 2)]" by code_simp
  from clock_sweep_terminates[OF h, of "[1, 2, 3, 4, 2, 5]"] h e show ?thesis by blast
qed

text \<open>
  Claim C10. For every \<open>frameCount \<ge> 1\<close> and every sequence of non-negative references,
  in every step emitted by \<open>simulateLRU\<close> and \<open>simulateARB\<close>: if the step is a hit,
  \<open>framesAfter\<close> equals \<open>frames\<close>; if the step is a fault, \<open>framesAfter\<close> differs from
  \<open>frames\<close> at exactly one index, the step's \<open>replacedFrame\<close>.
\<close>

theorem one_frame_changes_per_fault:
  assumes "1 \<le> frameCount" "\<forall>r\<in>set refString. 0 \<le> r"
  shows "(\<exists>res. simulateLRU frameCount refString = Some res \<and>
            (\<forall>s\<in>set (steps res).
               (\<not> isFault s \<longrightarrow> framesAfter s = frames s) \<and>
               (isFault s \<longrightarrow>
                  (\<exists>v. replacedFrame s = Some v \<and> v < length (frames s)
                     \<and> length (framesAfter s) = length (frames s)
                     \<and> (\<forall>j<length (frames s). (framesAfter s ! j \<noteq> frames s ! j) = (j = v))))))
       \<and> (\<exists>res. simulateARB frameCount refString = Some res \<and>
            (\<forall>s\<in>set (steps res).
               (\<not> isFault s \<longrightarrow> framesAfter s = frames s) \<and>
               (isFault s \<longrightarrow>
                  (\<exists>v. replacedFrame s = Some v \<and> v < length (frames s)
                     \<and> length (framesAfter s) = length (frames s)
                     \<and> (\<forall>j<length (frames s). (framesAfter s ! j \<noteq> frames s ! j) = (j = v))))))"
proof
  from assms have k: "0 < frameCount" by simp
  have differ: "(\<forall>j<length f. (f[v := p] ! j \<noteq> f ! j) = (j = v))"
    if "v < length f" "p \<notin> set f" for f :: "int list" and v p
    using that by (auto simp: nth_list_update)
  from lru_run[OF k, of refString] obtain st
    where st: "for_each lru_body
                 (replicate frameCount (-1), [], \<lparr>steps = [], faults = 0, hits = 0\<rparr>) refString
               = Some st"
      "lru_inv frameCount st" by blast
  obtain frs order result where "st = (frs, order, result)" by (cases st)
  with st have res: "simulateLRU frameCount refString = Some result"
    "\<forall>s\<in>set (steps result). lru_step_ok s"
    by (auto simp: simulateLRU_def lru_inv_def)
  show "\<exists>res. simulateLRU frameCount refString = Some res \<and>
            (\<forall>s\<in>set (steps res).
               (\<not> isFault s \<longrightarrow> framesAfter s = frames s) \<and>
               (isFault s \<longrightarrow>
                  (\<exists>v. replacedFrame s = Some v \<and> v < length (frames s)
                     \<and> length (framesAfter s) = length (frames s)
                     \<and> (\<forall>j<length (frames s). (framesAfter s ! j \<noteq> frames s ! j) = (j = v)))))"
  proof (intro exI conjI ballI)
    show "simulateLRU frameCount refString = Some result" by (rule res(1))
  next
    fix s assume "s \<in> set (steps result)"
    then have ok: "lru_step_ok s" using res(2) by blast
    show "\<not> isFault s \<longrightarrow> framesAfter s = frames s"
      using ok by (simp add: lru_step_ok_def)
    show "isFault s \<longrightarrow>
                  (\<exists>v. replacedFrame s = Some v \<and> v < length (frames s)
                     \<and> length (framesAfter s) = length (frames s)
                     \<and> (\<forall>j<length (frames s). (framesAfter s ! j \<noteq> frames s ! j) = (j = v)))"
      using ok differ[of _ "frames s" "reference s"] by (auto simp: lru_step_ok_def)
  qed
  from arb_run_inv[OF k, of refString] assms(2) obtain st2
    where st2: "arb_run frameCount refString = Some st2" "arb_inv2 frameCount st2" by blast
  obtain frs bits pointer framesFilled result2 sweeps
    where "st2 = (frs, bits, pointer, framesFilled, result2, sweeps)" by (cases st2)
  with st2 have res2: "simulateARB frameCount refString = Some result2"
    "\<forall>s\<in>set (steps result2). arb_step_ok frameCount s"
    by (auto simp: simulateARB_def arb_inv2_def)
  show "\<exists>res. simulateARB frameCount refString = Some res \<and>
            (\<forall>s\<in>set (steps res).
               (\<not> isFault s \<longrightarrow> framesAfter s = frames s) \<and>
               (isFault s \<longrightarrow>
                  (\<exists>v. replacedFrame s = Some v \<and> v < length (frames s)
                     \<and> length (framesAfter s) = length (frames s)
                     \<and> (\<forall>j<length (frames s). (framesAfter s ! j \<noteq> frames s ! j) = (j = v)))))"
  proof (intro exI conjI ballI)
    show "simulateARB frameCount refString = Some result2" by (rule res2(1))
  next
    fix s assume "s \<in> set (steps result2)"
    then have ok: "arb_step_ok frameCount s" using res2(2) by blast
    show "\<not> isFault s \<longrightarrow> framesAfter s = frames s"
      using ok by (auto simp: arb_step_ok_def)
    show "isFault s \<longrightarrow>
                  (\<exists>v. replacedFrame s = Some v \<and> v < length (frames s)
                     \<and> length (framesAfter s) = length (frames s)
                     \<and> (\<forall>j<length (frames s). (framesAfter s ! j \<noteq> frames s ! j) = (j = v)))"
      using ok differ[of _ "frames s" "reference s"] by (auto simp: arb_step_ok_def)
  qed
qed

text \<open>
  Two frames, references 1, 2, 1, 3: the last step is a fault on a full table; LRU
  replaces frame 1, the clock replaces frame 0, and the other frame is kept.
\<close>

theorem one_frame_changes_per_fault_witness:
  "(1::nat) \<le> 2 \<and> list_all (\<lambda>r. 0 \<le> r) [1, 2, 1, 3 :: int]
 \<and> map_option (\<lambda>r. map (\<lambda>s. (frames s, replacedFrame s, framesAfter s)) (steps r))
      (simulateLRU 2 [1, 2, 1, 3]) =
    Some [([-1, -1], Some 0, [1, -1]), ([1, -1], Some 1, [1, 2]),
          ([1, 2], None, [1, 2]), ([1, 2], Some 1, [1, 3])]
 \<and> map_option (\<lambda>r. map (\<lambda>s. (frames s, replacedFrame s, framesAfter s)) (steps r))
      (simulateARB 2 [1, 2, 1, 3]) =
    Some [([-1, -1], Some 0, [1, -1]), ([1, -1], Some 1, [1, 2]),
          ([1, 2], None, [1, 2]), ([1, 2], Some 0, [3, 2])]
 \<and> ((\<exists>res. simulateLRU 2 [1, 2, 1, 3] = Some res \<and>
            (\<forall>s\<in>set (steps res).
               (\<not> isFault s \<longrightarrow> framesAfter s = frames s) \<and>
               (isFault s \<longrightarrow>
                  (\<exists>v. replacedFrame s = Some v \<and> v < length (frames s)
                     \<and> length (framesAfter s) = length (frames s)
                     \<and> (\<forall>j<length (frames s). (framesAfter s ! j \<noteq> frames s ! j) = (j = v))))))
       \<and> (\<exists>res. simulateARB 2 [1, 2, 1, 3] = Some res \<and>
            (\<forall>s\<in>set (steps res).
               (\<not> isFault s \<longrightarrow> framesAfter s = frames s) \<and>
               (isFault s \<longrightarrow>
                  (\<exists>v. replacedFrame s = Some v \<and> v < length (frames s)
                     \<and> length (framesAfter s) = length (frames s)
                     \<and> (\<forall>j<length (frames s). (framesAfter s ! j \<noteq> frames s ! j) = (j = v)))))))"
proof -
  have h: "(1::nat) \<le> 2" "\<forall>r\<in>set [1, 2, 1, 3 :: int]. 0 \<le> r" by simp_all
  have e1: "map_option (\<lambda>r. map (\<lambda>s. (frames s, replacedFrame s, framesAfter s)) (steps r))
      (simulateLRU 2 [1, 2, 1, 3]) =
    Some [([-1, -1], Some 0, [1, -1]), ([1, -1], Some 1, [1, 2]),
          ([1, 2], None, [1, 2]), ([1, 2], Some 1, [1, 3])]" by code_simp
  have e2: "map_option (\<lambda>r. map (\<lambda>s. (frames s, replacedFrame s, framesAfter s)) (steps r))
      (simulateARB 2 [1, 2, 1, 3]) =
    Some [([-1, -1], Some 0, [1, -1]), ([1, -1], Some 1, [1, 2]),
          ([1, 2], None, [1, 2]), ([1, 2], Some 0, [3, 2])]" by code_simp
  from one_frame_changes_per_fault[OF h] h e1 e2 show ?thesis by (simp add: list_all_iff)
qed

section \<open>Input validation: proofs\<close>

lemma those_Some_map: "those xs = Some ys \<Longrightarrow> xs = map Some ys"
  by (induction xs arbitrary: ys) (auto split: option.splits)

lemma split_on_nonempty: "split_on sep s \<noteq> []"
  by (induction s) (auto split: list.splits)

lemma split_ws_nonempty: "split_ws s \<noteq> []"
  by (induction s rule: split_ws.induct) (auto split: list.splits)

lemma trim_Nil: "trim [] = []"
  by (simp add: trim_def)

lemma js_parseInt_empty: "js_parseInt [] = None"
  by (simp add: js_parseInt_def trimStart_def)

text \<open>What an accepted disk input is: a validated workload.\<close>

lemma validateDiskInput_valid:
  assumes "validateDiskInput cylinders headPosition requestQueue = DiskValid c s reqs"
  shows "valid_disk_workload c s reqs"
proof -
  from assms have c: "js_parseInt cylinders = Some c" "0 < c"
    by (auto simp: validateDiskInput_def Let_def split: option.splits if_splits)
  with assms have s: "js_parseInt headPosition = Some s" "0 \<le> s" "s < c"
    by (auto simp: validateDiskInput_def Let_def split: option.splits if_splits)
  with assms c have q:
    "those (map (\<lambda>r. js_parseInt (trim r)) (split_on CHR '','' (trim requestQueue))) = Some reqs"
    "\<not> list_ex (\<lambda>num. num < 0 \<or> num \<ge> c) reqs"
    by (auto simp: validateDiskInput_def Let_def split: option.splits if_splits)
  from those_Some_map[OF q(1)] have "reqs \<noteq> []"
    using split_on_nonempty[of "CHR '',''" "trim requestQueue"] by auto
  with c s q(2) show ?thesis
    by (auto simp: valid_disk_workload_def list_all_iff list_ex_iff)
qed

text \<open>
  Claim C9, as amended. With a cylinder count \<open>c\<close> that passed its own check,
  \<open>validateDiskInput\<close> applies its checks in order, and each returns its own message. A
  negative head position is rejected as not a non-negative integer. A head position
  greater than or equal to \<open>c\<close> is rejected with a message naming the range 0 to
  \<open>c - 1\<close>. With the head in range, a queue with a token that is not a number is
  rejected as non-numeric, whatever its other values; a queue whose tokens are all
  numbers and that holds a value outside the range from 0 to \<open>c - 1\<close> is rejected with a
  message naming that range. In every case an input with a queue value out of range is
  rejected.
\<close>

theorem disk_validator_range_messages:
  assumes "js_parseInt cylinders = Some c" "0 < c" "js_parseInt headPosition = Some s"
  shows "(s < 0 \<longrightarrow>
            validateDiskInput cylinders headPosition requestQueue =
              DiskInvalid ''Head position must be a non-negative integer'')
       \<and> (c \<le> s \<longrightarrow>
            validateDiskInput cylinders headPosition requestQueue =
              DiskInvalid (''Head position must be less than total cylinders (0-''
                           @ show_int (c - 1) @ '')''))
       \<and> (0 \<le> s \<and> s < c \<and> trim requestQueue \<noteq> []
            \<and> those (map (\<lambda>r. js_parseInt (trim r)) (split_on CHR '','' (trim requestQueue)))
                = None \<longrightarrow>
            validateDiskInput cylinders headPosition requestQueue =
              DiskInvalid ''Request queue must contain only numbers separated by commas'')
       \<and> (0 \<le> s \<and> s < c
            \<and> those (map (\<lambda>r. js_parseInt (trim r)) (split_on CHR '','' (trim requestQueue)))
                = Some nums
            \<and> (\<exists>n\<in>set nums. n < 0 \<or> c \<le> n) \<longrightarrow>
            validateDiskInput cylinders headPosition requestQueue =
              DiskInvalid (''Request queue must contain integers between 0 and ''
                           @ show_int (c - 1)))
       \<and> ((\<exists>r\<in>set (split_on CHR '','' (trim requestQueue)).
              \<exists>n. js_parseInt (trim r) = Some n \<and> (n < 0 \<or> c \<le> n)) \<longrightarrow>
            (\<exists>m. validateDiskInput cylinders headPosition requestQueue = DiskInvalid m))"
proof (intro conjI impI)
  assume "s < 0"
  with assms show "validateDiskInput cylinders headPosition requestQueue =
              DiskInvalid ''Head position must be a non-negative integer''"
    by (simp add: validateDiskInput_def)
next
  assume "c \<le> s"
  with assms show "validateDiskInput cylinders headPosition requestQueue =
              DiskInvalid (''Head position must be less than total cylinders (0-''
                           @ show_int (c - 1) @ '')'')"
    by (simp add: validateDiskInput_def)
next
  assume "0 \<le> s \<and> s < c \<and> trim requestQueue \<noteq> []
            \<and> those (map (\<lambda>r. js_parseInt (trim r)) (split_on CHR '','' (trim requestQueue)))
                = None"
  with assms show "validateDiskInput cylinders headPosition requestQueue =
              DiskInvalid ''Request queue must contain only numbers separated by commas''"
    by (simp add: validateDiskInput_def Let_def)
next
  assume h: "0 \<le> s \<and> s < c
            \<and> those (map (\<lambda>r. js_parseInt (trim r)) (split_on CHR '','' (trim requestQueue)))
                = Some nums
            \<and> (\<exists>n\<in>set nums. n < 0 \<or> c \<le> n)"
  have "trim requestQueue \<noteq> []"
  proof
    assume "trim requestQueue = []"
    with h show False by (simp add: js_parseInt_empty trim_Nil)
  qed
  with assms h show "validateDiskInput cylinders headPosition requestQueue =
              DiskInvalid (''Request queue must contain integers between 0 and ''
                           @ show_int (c - 1))"
    by (auto simp: validateDiskInput_def Let_def list_ex_iff)
next
  assume h: "\<exists>r\<in>set (split_on CHR '','' (trim requestQueue)).
              \<exists>n. js_parseInt (trim r) = Some n \<and> (n < 0 \<or> c \<le> n)"
  show "\<exists>m. validateDiskInput cylinders headPosition requestQueue = DiskInvalid m"
  proof (cases "validateDiskInput cylinders headPosition requestQueue")
    case (DiskInvalid m)
    then show ?thesis by simp
  next
    case (DiskValid c' s' reqs)
    with assms have eq: "c' = c"
      "those (map (\<lambda>r. js_parseInt (trim r)) (split_on CHR '','' (trim requestQueue))) = Some reqs"
      "\<not> list_ex (\<lambda>num. num < 0 \<or> num \<ge> c) reqs"
      by (auto simp: validateDiskInput_def Let_def split: option.splits if_splits)
    from h obtain r n where r: "r \<in> set (split_on CHR '','' (trim requestQueue))"
      "js_parseInt (trim r) = Some n" "n < 0 \<or> c \<le> n" by blast
    from r(1,2)
    have "Some n \<in> set (map (\<lambda>r. js_parseInt (trim r)) (split_on CHR '','' (trim requestQueue)))"
      by force
    then have "n \<in> set reqs" using those_Some_map[OF eq(2)] by auto
    with r(3) eq(3) show ?thesis by (auto simp: list_ex_iff)
  qed
qed

text \<open>
  With 200 cylinders: the head position 200 and the queue 82, 200, 43 are rejected with
  the range 0 to 199 in the message; the head position -1 and the queue abc, 300 are
  rejected with the messages of the earlier checks.
\<close>

theorem disk_validator_range_messages_witness:
  "validateDiskInput ''200'' ''200'' ''82,170'' =
     DiskInvalid ''Head position must be less than total cylinders (0-199)''
 \<and> validateDiskInput ''200'' ''50'' ''82,200,43'' =
     DiskInvalid ''Request queue must contain integers between 0 and 199''
 \<and> validateDiskInput ''200'' ''-1'' ''82,170'' =
     DiskInvalid ''Head position must be a non-negative integer''
 \<and> validateDiskInput ''200'' ''50'' ''abc,300'' =
     DiskInvalid ''Request queue must contain only numbers separated by commas''"
proof -
  have c: "js_parseInt ''200'' = Some 200" "(0::int) < 200" by code_simp+
  have s: "js_parseInt ''50'' = Some 50" by code_simp
  have n: "js_parseInt ''-1'' = Some (-1)" by code_simp
  have q: "those (map (\<lambda>r. js_parseInt (trim r)) (split_on CHR '','' (trim ''82,200,43'')))
             = Some [82, 200, 43]" by code_simp
  have b: "trim ''abc,300'' \<noteq> []"
    "those (map (\<lambda>r. js_parseInt (trim r)) (split_on CHR '','' (trim ''abc,300''))) = None"
    by code_simp+
  have m: "show_int 199 = ''199''" by code_simp
  from disk_validator_range_messages[OF c c(1), of "''82,170''"]
  have 1: "validateDiskInput ''200'' ''200'' ''82,170'' =
     DiskInvalid ''Head position must be less than total cylinders (0-199)''"
    by (simp add: m)
  from disk_validator_range_messages[OF c s, of "''82,200,43''" "[82, 200, 43]"] q
  have 2: "validateDiskInput ''200'' ''50'' ''82,200,43'' =
     DiskInvalid ''Request queue must contain integers between 0 and 199''"
    by (simp add: m)
  from disk_validator_range_messages[OF c n, of "''82,170''"]
  have 3: "validateDiskInput ''200'' ''-1'' ''82,170'' =
     DiskInvalid ''Head position must be a non-negative integer''"
    by simp
  from disk_validator_range_messages[OF c s, of "''abc,300''"] b
  have 4: "validateDiskInput ''200'' ''50'' ''abc,300'' =
     DiskInvalid ''Request queue must contain only numbers separated by commas''"
    by simp
  from 1 2 3 4 show ?thesis by simp
qed

text \<open>
  Claim C9 as stated promises the range message for every request-queue value outside
  the range. With 200 cylinders and head 50, the queue abc, 300 holds the value 300,
  which is out of range, and is rejected with the message of the numeric check, which
  does not name the range; with head -1 the queue 300 is rejected with the message of
  the head check.
\<close>

theorem disk_validator_other_message_first:
  "js_parseInt (trim ''300'') = Some 300
 \<and> validateDiskInput ''200'' ''50'' ''abc,300'' =
     DiskInvalid ''Request queue must contain only numbers separated by commas''
 \<and> validateDiskInput ''200'' ''-1'' ''300'' =
     DiskInvalid ''Head position must be a non-negative integer''"
  by code_simp

text \<open>What an accepted memory input is, and the rejections the specification lists.\<close>

lemma validateMemoryInput_valid:
  assumes "validateMemoryInput framesText referenceString = MemValid n refs"
  shows "js_parseInt framesText = Some n \<and> 0 < n \<and> refs \<noteq> []
       \<and> refs = map js_Number (split_ws (trim referenceString))
       \<and> (\<forall>x\<in>set refs. \<not> isNaN x \<and> \<not> js_negative x)"
  using assms
  by (auto simp: validateMemoryInput_def Let_def list_ex_iff split_ws_nonempty
      split: option.splits if_splits)

lemma validateMemoryInput_rejections:
  "validateMemoryInput ''0'' ''7 0 1'' = MemInvalid ''Number of frames must be a positive integer''"
  "validateMemoryInput ''-5'' ''7 0 1'' = MemInvalid ''Number of frames must be a positive integer''"
  "validateMemoryInput ''abc'' ''7 0 1'' = MemInvalid ''Number of frames must be a positive integer''"
  "validateMemoryInput ''3'' '''' = MemInvalid ''Reference string is required''"
  "validateMemoryInput ''3'' ''1 -2 3'' =
     MemInvalid ''Reference string must contain non-negative integers''"
  "validateMemoryInput ''3'' ''1 x 3'' =
     MemInvalid ''Reference string must contain only numbers separated by spaces''"
  by code_simp+

text \<open>
  Claim C5 says that \<open>validateMemoryInput\<close> succeeds only when every reference token is a
  non-negative integer, and the validator's own message for the last check reads
  ``Reference string must contain non-negative integers''. The check itself is only
  \<open>num < 0\<close> on the result of \<open>Number\<close>: the reference string ``1.5 2'' is accepted, with
  the page number 3/2.
\<close>

theorem memory_validator_accepts_fraction:
  "validateMemoryInput ''3'' ''1.5 2'' = MemValid 3 [Finite (3 / 2), Finite 2]
 \<and> \<not> nonneg_integer (js_Number ''1.5'')"
  by code_simp

end
